theory Spec2Isabelle imports Complex_Main "HOL-Library.Sublist" begin

section \<open>Data model of the storefront (src/src/App.js)\<close>

text \<open>
  A JavaScript string is a sequence of UTF-16 code units; a code unit is a natural number
  below 65536, so every string the program can hold has a term here. \<open>js\<close> turns an
  ASCII literal into its code units.

  JavaScript numbers that the specification declares to be integers (price, stock,
  quantity, subtotal) are modelled as \<open>int\<close>; the rating, a decimal such as 4.8, is
  modelled as \<open>real\<close>. Objects are records; a cart line item and a product share the
  fields \<open>id\<close>, \<open>name\<close> and \<open>price\<close>, so both extend the record \<open>item\<close>. The field \<open>id\<close>
  of the source is called \<open>id'\<close> here, since \<open>id\<close> is the identity function of HOL.

  The \<open>images\<close> field of a product may be missing (\<open>None\<close>); when present it is a list
  whose entries may be \<open>null\<close> (the admin panel's empty draft has \<open>images: [null]\<close>).
\<close>

type_synonym jsString = "nat list"

definition js :: "string \<Rightarrow> jsString" where
  "js s = map of_char s"

record item =
  id' :: jsString
  name :: jsString
  price :: int

record product = item +
  category :: jsString
  stock :: int
  rating :: real
  images :: "jsString option list option"
  description :: jsString

record cartLine = item +
  qty :: int
  image :: "jsString option"

section \<open>Cart store\<close>

text \<open>
  \<open>p.images?.[0] || null\<close>: the first image reference, or \<open>null\<close> when \<open>images\<close> is
  missing, empty, or starts with a falsy entry (\<open>null\<close> or the empty string).
\<close>

definition firstImage :: "product \<Rightarrow> jsString option" where
  "firstImage p =
     (case images p of
        None \<Rightarrow> None
      | Some [] \<Rightarrow> None
      | Some (None # _) \<Rightarrow> None
      | Some (Some s # _) \<Rightarrow> (if s = [] then None else Some s))"

text \<open>
  \<open>addToCart(p, qty = 1)\<close>, lines 228-247, as the function passed to \<open>setCart\<close>: from
  the previous cart to the next one. The optional argument is an \<open>int option\<close>, \<open>None\<close>
  standing for an omitted argument, which takes the default 1. \<open>prev.find\<close> is \<open>find\<close>
  of HOL; an object is truthy, so \<open>if (exists)\<close> tests that a line was found.
\<close>

definition addToCart :: "product \<Rightarrow> int option \<Rightarrow> cartLine list \<Rightarrow> cartLine list" where
  "addToCart p qtyArg prev =
     (let q = (case qtyArg of None \<Rightarrow> 1 | Some n \<Rightarrow> n);
          exists = find (\<lambda>i. id' i = id' p) prev
      in if exists \<noteq> None
         then map (\<lambda>i. if id' i = id' p then i\<lparr>qty := qty i + q\<rparr> else i) prev
         else prev @ [\<lparr>id' = id' p, name = name p, price = price p,
                       qty = q, image = firstImage p\<rparr>])"

text \<open>A sequence of \<open>addToCart\<close> calls, applied in order.\<close>

fun addAll :: "(product \<times> int option) list \<Rightarrow> cartLine list \<Rightarrow> cartLine list" where
  "addAll [] cart = cart"
| "addAll ((p, qtyArg) # calls) cart = addAll calls (addToCart p qtyArg cart)"

text \<open>The quantity a call adds: its argument, or the default 1.\<close>

definition callQty :: "product \<times> int option \<Rightarrow> int" where
  "callQty c = (case snd c of None \<Rightarrow> 1 | Some n \<Rightarrow> n)"

text \<open>\<open>removeFromCart(id)\<close>, lines 249-250.\<close>

definition removeFromCart :: "jsString \<Rightarrow> cartLine list \<Rightarrow> cartLine list" where
  "removeFromCart i prev = filter (\<lambda>l. id' l \<noteq> i) prev"

text \<open>\<open>updateQty(id, qty)\<close>, lines 251-254.\<close>

definition updateQty :: "jsString \<Rightarrow> int \<Rightarrow> cartLine list \<Rightarrow> cartLine list" where
  "updateQty i q prev = map (\<lambda>l. if id' l = i then l\<lparr>qty := max 1 q\<rparr> else l) prev"

section \<open>Pricing\<close>

text \<open>\<open>total\<close>, lines 210-213: \<open>cart.reduce((s, i) => s + i.price * i.qty, 0)\<close>.\<close>

definition total :: "cartLine list \<Rightarrow> int" where
  "total cart = foldl (\<lambda>s i. s + price i * qty i) 0 cart"

text \<open>\<open>shippingFee\<close>, line 257.\<close>

definition shippingFee :: "int \<Rightarrow> int" where
  "shippingFee t = (if t > 500000 then 0 else 30000)"

section \<open>Strings\<close>

text \<open>
  \<open>trim\<close> removes the white space and line terminators of ECMAScript at both ends: tab,
  line feed, vertical tab, form feed, carriage return, space, no-break space (U+00A0),
  U+1680, U+2000 to U+200A, the line and paragraph separators U+2028 and U+2029,
  U+202F, U+205F, U+3000 and the byte order mark U+FEFF.
\<close>

definition isWhiteSpace :: "nat \<Rightarrow> bool" where
  "isWhiteSpace c \<longleftrightarrow>
     c \<in> {0x09, 0x0A, 0x0B, 0x0C, 0x0D, 0x20, 0xA0, 0x1680, 0x2028, 0x2029, 0x202F, 0x205F,
          0x3000, 0xFEFF}
     \<or> (0x2000 \<le> c \<and> c \<le> 0x200A)"

definition trim :: "jsString \<Rightarrow> jsString" where
  "trim s = rev (dropWhile isWhiteSpace (rev (dropWhile isWhiteSpace s)))"

text \<open>
  \<open>toUpperCase\<close> maps each character to its upper case in Unicode, which may be several
  characters. The mapping is written out for every code unit whose upper case contains
  an ASCII character: the letters a to z, the sharp s (to SS), the dotless i (to I), the
  long s (to S), the ligatures U+FB00 to U+FB06, and seven letters whose upper case is an
  ASCII letter with a combining mark. Any other code unit is kept: JavaScript maps it to
  code units outside ASCII only. So for an ASCII string \<open>t\<close>, \<open>toUpperCase s = t\<close> holds
  here exactly when \<open>s.toUpperCase() === t\<close> holds in JavaScript.
\<close>

definition upperUnit :: "nat \<Rightarrow> nat list" where
  "upperUnit c =
     (if 0x61 \<le> c \<and> c \<le> 0x7A then [c - 0x20]
      else if c = 0xDF then [0x53, 0x53]
      else if c = 0x131 then [0x49]
      else if c = 0x149 then [0x2BC, 0x4E]
      else if c = 0x17F then [0x53]
      else if c = 0x1F0 then [0x4A, 0x30C]
      else if c = 0x1E96 then [0x48, 0x331]
      else if c = 0x1E97 then [0x54, 0x308]
      else if c = 0x1E98 then [0x57, 0x30A]
      else if c = 0x1E99 then [0x59, 0x30A]
      else if c = 0x1E9A then [0x41, 0x2BE]
      else if c = 0xFB00 then [0x46, 0x46]
      else if c = 0xFB01 then [0x46, 0x49]
      else if c = 0xFB02 then [0x46, 0x4C]
      else if c = 0xFB03 then [0x46, 0x46, 0x49]
      else if c = 0xFB04 then [0x46, 0x46, 0x4C]
      else if c = 0xFB05 then [0x53, 0x54]
      else if c = 0xFB06 then [0x53, 0x54]
      else [c])"

definition toUpperCase :: "jsString \<Rightarrow> jsString" where
  "toUpperCase s = concat (map upperUnit s)"

text \<open>
  The code units that \<open>toUpperCase\<close> takes to a given character of \<open>VIETKY10\<close>: the
  character itself, its lower-case letter, and the dotless i for I.
\<close>

definition couponAlphabet :: "nat set" where
  "couponAlphabet = {0x56, 0x49, 0x45, 0x54, 0x4B, 0x59, 0x31, 0x30}"

text \<open>
  \<open>hay.includes(needle)\<close>: \<open>needle\<close> occurs in \<open>hay\<close> as a contiguous run of code units.
  The name carries a prime, \<open>includes\<close> being a keyword of Isabelle.
\<close>

fun includes' :: "jsString \<Rightarrow> jsString \<Rightarrow> bool" where
  "includes' [] needle = (needle = [])"
| "includes' (c # cs) needle = (prefix needle (c # cs) \<or> includes' cs needle)"

section \<open>Checkout footer\<close>

text \<open>
  \<open>Math.round\<close> rounds to the nearest integer, a tie towards positive infinity. The
  subtotal is an integer and \<open>total * 0.1\<close> is taken exactly, as a tenth of it; the
  double-precision product rounds to the same integer as long as the subtotal stays
  below \<open>10^15\<close> in absolute value.
\<close>

definition Math_round :: "real \<Rightarrow> int" where
  "Math_round x = \<lfloor>x + 1 / 2\<rfloor>"

text \<open>\<open>CheckoutFooter\<close>, lines 786-790: the discount and the grand total.\<close>

definition discount :: "int \<Rightarrow> jsString \<Rightarrow> int" where
  "discount t coupon =
     (if toUpperCase (trim coupon) = js ''VIETKY10''
      then Math_round (of_int t * (1 / 10)) else 0)"

definition grand :: "int \<Rightarrow> int \<Rightarrow> jsString \<Rightarrow> int" where
  "grand t fee coupon = max 0 (t + fee - discount t coupon)"

section \<open>Query engine\<close>

text \<open>
  \<open>filtered\<close>, lines 215-226. \<open>toLowerCase\<close> follows the case tables of Unicode, which are
  the platform's and not the program's: it is the first argument, and what is proved
  holds for every function in its place. \<open>list.sort(cmp)\<close> is stable, and each
  comparator is the difference of a numeric key, so the sort is the stable sort by that
  key: \<open>sort_key\<close>, which inserts from the right and puts an element before the equal
  ones already placed. The descending sorts order by the negated key. An empty query is
  falsy and skips the first filter. The sort mode is the string held in the \<open>sort\<close>
  state.
\<close>

definition filtered ::
  "(jsString \<Rightarrow> jsString) \<Rightarrow> product list \<Rightarrow> jsString \<Rightarrow> jsString \<Rightarrow> jsString \<Rightarrow> product list"
where
  "filtered toLowerCase products query cat sortMode =
     (let list0 = products;
          list1 = (if query \<noteq> []
                   then filter (\<lambda>p. includes' (toLowerCase (name p)) (toLowerCase query)) list0
                   else list0);
          list2 = (if cat \<noteq> js ''all'' then filter (\<lambda>p. category p = cat) list1 else list1);
          list3 = (if sortMode = js ''priceAsc'' then sort_key price list2 else list2);
          list4 = (if sortMode = js ''priceDesc''
                   then sort_key (\<lambda>p. - price p) list3 else list3);
          list5 = (if sortMode = js ''popular''
                   then sort_key (\<lambda>p. - rating p) list4 else list4)
      in list5)"

text \<open>
  The values that the \<open>sort\<close> state takes: it starts as \<open>popular\<close> (line 200) and is set
  only by \<open>setSort(e.target.value)\<close> from the select whose options are these three (lines
  317-325).
\<close>

definition sortOptions :: "jsString list" where
  "sortOptions = [js ''popular'', js ''priceAsc'', js ''priceDesc'']"

text \<open>
  A lower-casing for ASCII strings, on which it is the platform's: A to Z go to a to z
  and every other code unit is kept. It stands for \<open>toLowerCase\<close> where the operations
  are run on ASCII sample data.
\<close>

definition asciiLower :: "jsString \<Rightarrow> jsString" where
  "asciiLower s = map (\<lambda>c. if 0x41 \<le> c \<and> c \<le> 0x5A then c + 0x20 else c) s"

section \<open>Catalog store\<close>

text \<open>
  \<open>list.findIndex(pred)\<close>: the index of the first element satisfying \<open>pred\<close>, or -1.
\<close>

fun findIndexFrom :: "('a \<Rightarrow> bool) \<Rightarrow> nat \<Rightarrow> 'a list \<Rightarrow> int" where
  "findIndexFrom P k [] = - 1"
| "findIndexFrom P k (x # xs) = (if P x then int k else findIndexFrom P (Suc k) xs)"

definition findIndex :: "('a \<Rightarrow> bool) \<Rightarrow> 'a list \<Rightarrow> int" where
  "findIndex P xs = findIndexFrom P 0 xs"

text \<open>
  \<open>upsertProduct(p)\<close>, lines 267-277. The identifier that \<open>uid()\<close> draws for a new
  product is the argument \<open>fresh\<close>.
\<close>

definition upsertProduct :: "jsString \<Rightarrow> product \<Rightarrow> product list \<Rightarrow> product list" where
  "upsertProduct fresh p list =
     (let idx = findIndex (\<lambda>x. id' x = id' p) list
      in if idx \<ge> 0 then list[nat idx := p] else p\<lparr>id' := fresh\<rparr> # list)"

text \<open>\<open>deleteProduct(id)\<close>, lines 279-280.\<close>

definition deleteProduct :: "jsString \<Rightarrow> product list \<Rightarrow> product list" where
  "deleteProduct i list = filter (\<lambda>p. id' p \<noteq> i) list"

section \<open>Persistence adapter\<close>

subsection \<open>JSON values\<close>

text \<open>
  \<open>save\<close> and \<open>load\<close> go through \<open>JSON.stringify\<close> and \<open>JSON.parse\<close>. The values are
  \<open>null\<close>, booleans, numbers, strings, arrays, and objects as the list of their members
  in property order.

  \<open>JNum m x\<close> is the number \<open>m * 10^x\<close>. A JavaScript number is a double; it is held
  here as the decimal that JavaScript prints for it, the shortest one that reads back as
  the same double: 4.8 is \<open>JNum 48 (-1)\<close> and 169000 is \<open>JNum 169 3\<close>. The two zeros
  of JavaScript, which \<open>===\<close> does not tell apart, are the one term \<open>JNum 0 0\<close>; \<open>NaN\<close>
  and the infinities are not JSON values (\<open>JSON.stringify\<close> writes \<open>null\<close> for them) and
  have no term. Reading a numeral gives its exact decimal value, where JavaScript rounds
  a numeral of more than 17 digits, or beyond the range of a double, to the nearest
  double; on the text that \<open>JSON.stringify\<close> writes for a double the two agree.

  \<open>wellFormed\<close> below says that a term denotes a JavaScript value: the mantissa of a
  number has no trailing zero (and zero is \<open>JNum 0 0\<close>), and the keys of an object are
  distinct and in property order.
\<close>

datatype json =
    JNull
  | JBool bool
  | JNum int int
  | JStr jsString
  | JArr "json list"
  | JObj "(jsString \<times> json) list"

text \<open>What \<open>JSON.parse\<close> throws on a text that is not JSON.\<close>

datatype error = SyntaxError

subsection \<open>Property order\<close>

text \<open>
  The own properties of an object are enumerated with the array indices first, in
  ascending order, and then the other keys in the order of their creation. An array index
  is the decimal numeral, without leading zeros, of an integer below \<open>2^32 - 1\<close>.
\<close>

definition isDigit :: "nat \<Rightarrow> bool" where
  "isDigit c \<longleftrightarrow> 0x30 \<le> c \<and> c \<le> 0x39"

definition natOfDigits :: "jsString \<Rightarrow> nat" where
  "natOfDigits ds = foldl (\<lambda>a c. 10 * a + (c - 0x30)) 0 ds"

definition isArrayIndex :: "jsString \<Rightarrow> bool" where
  "isArrayIndex k \<longleftrightarrow>
     k \<noteq> [] \<and> list_all isDigit k \<and> (length k = 1 \<or> hd k \<noteq> 0x30)
     \<and> natOfDigits k < 4294967295"

text \<open>
  \<open>setMember k v kvs\<close> is the member list after \<open>obj[k] = v\<close>: an existing key keeps its
  place and takes the new value; a new array index goes before the first member that is
  not a smaller array index; any other new key goes last.
\<close>

fun insertIndex :: "jsString \<Rightarrow> json \<Rightarrow> (jsString \<times> json) list \<Rightarrow> (jsString \<times> json) list" where
  "insertIndex k v [] = [(k, v)]"
| "insertIndex k v (kv # r) =
     (if isArrayIndex (fst kv) \<and> natOfDigits (fst kv) < natOfDigits k
      then kv # insertIndex k v r
      else (k, v) # kv # r)"

definition setMember :: "jsString \<Rightarrow> json \<Rightarrow> (jsString \<times> json) list \<Rightarrow> (jsString \<times> json) list" where
  "setMember k v kvs =
     (if k \<in> set (map fst kvs) then map (\<lambda>kv. if fst kv = k then (k, v) else kv) kvs
      else if isArrayIndex k then insertIndex k v kvs
      else kvs @ [(k, v)])"

text \<open>The object that the members of a JSON text build, set one after the other.\<close>

definition objectOf :: "(jsString \<times> json) list \<Rightarrow> (jsString \<times> json) list" where
  "objectOf raw = foldl (\<lambda>acc kv. setMember (fst kv) (snd kv) acc) [] raw"

text \<open>
  A list of keys in property order: whenever a key is an array index, the key before it
  is a smaller array index.
\<close>

fun keysOrdered :: "jsString list \<Rightarrow> bool" where
  "keysOrdered [] = True"
| "keysOrdered [k] = True"
| "keysOrdered (k # k' # r) =
     ((\<not> isArrayIndex k' \<or> (isArrayIndex k \<and> natOfDigits k < natOfDigits k'))
      \<and> keysOrdered (k' # r))"

fun wellFormed :: "json \<Rightarrow> bool" where
  "wellFormed JNull = True"
| "wellFormed (JBool b) = True"
| "wellFormed (JNum m x) = ((m = 0 \<and> x = 0) \<or> (m \<noteq> 0 \<and> m mod 10 \<noteq> 0))"
| "wellFormed (JStr s) = True"
| "wellFormed (JArr xs) = list_all wellFormed xs"
| "wellFormed (JObj kvs) =
     (distinct (map fst kvs) \<and> keysOrdered (map fst kvs) \<and> list_all wellFormed (map snd kvs))"

subsection \<open>JSON.stringify\<close>

text \<open>
  The text that \<open>JSON.stringify(v)\<close> produces, without any white space.

  A number is printed as \<open>Number.prototype.toString\<close> prints it. With \<open>k\<close> the number of
  digits of the mantissa and \<open>n = k + x\<close> the position of the decimal point: the digits
  and \<open>n - k\<close> zeros when \<open>k \<le> n \<le> 21\<close>; the digits with a point after the first \<open>n\<close> when
  \<open>0 < n \<le> 21\<close>; \<open>0.\<close>, \<open>-n\<close> zeros and the digits when \<open>-6 < n \<le> 0\<close>; and otherwise the
  first digit, a point before the other digits if there are any, and \<open>e\<close> with the signed
  exponent \<open>n - 1\<close>.
\<close>

fun showNat :: "nat \<Rightarrow> jsString" where
  "showNat n = (if n < 10 then [0x30 + n] else showNat (n div 10) @ [0x30 + n mod 10])"

declare showNat.simps [simp del]

definition exponentText :: "int \<Rightarrow> jsString" where
  "exponentText e = 0x65 # (if e < 0 then 0x2D else 0x2B) # showNat (nat \<bar>e\<bar>)"

definition positiveText :: "nat \<Rightarrow> int \<Rightarrow> jsString" where
  "positiveText s x =
     (let ds = showNat s; k = int (length ds); n = k + x in
      if k \<le> n \<and> n \<le> 21 then ds @ replicate (nat (n - k)) 0x30
      else if 0 < n \<and> n \<le> 21 then take (nat n) ds @ 0x2E # drop (nat n) ds
      else if - 6 < n \<and> n \<le> 0 then 0x30 # 0x2E # replicate (nat (- n)) 0x30 @ ds
      else if k = 1 then ds @ exponentText (n - 1)
      else hd ds # 0x2E # tl ds @ exponentText (n - 1))"

definition numberText :: "int \<Rightarrow> int \<Rightarrow> jsString" where
  "numberText m x =
     (if m = 0 then [0x30]
      else if m < 0 then 0x2D # positiveText (nat (- m)) x
      else positiveText (nat m) x)"

text \<open>
  A string is printed between double quotes. The quote, the backslash and the control
  characters below U+0020 are escaped (\<open>\b\<close>, \<open>\t\<close>, \<open>\n\<close>, \<open>\f\<close>, \<open>\r\<close>, and \<open>\u00xx\<close> in
  lower-case hexadecimal for the others), and so is a surrogate code unit that is not
  part of a pair; a high surrogate followed by a low one is printed as it is.
\<close>

definition hexDigit :: "nat \<Rightarrow> nat" where
  "hexDigit d = (if d < 10 then 0x30 + d else 0x57 + d)"

definition unicodeEscape :: "nat \<Rightarrow> jsString" where
  "unicodeEscape c =
     [0x5C, 0x75, hexDigit (c div 4096 mod 16), hexDigit (c div 256 mod 16),
      hexDigit (c div 16 mod 16), hexDigit (c mod 16)]"

definition isHighSurrogate :: "nat \<Rightarrow> bool" where
  "isHighSurrogate c \<longleftrightarrow> 0xD800 \<le> c \<and> c \<le> 0xDBFF"

definition isLowSurrogate :: "nat \<Rightarrow> bool" where
  "isLowSurrogate c \<longleftrightarrow> 0xDC00 \<le> c \<and> c \<le> 0xDFFF"

definition escapeUnit :: "nat \<Rightarrow> jsString" where
  "escapeUnit c =
     (if c = 0x22 then [0x5C, 0x22]
      else if c = 0x5C then [0x5C, 0x5C]
      else if c = 0x08 then [0x5C, 0x62]
      else if c = 0x0C then [0x5C, 0x66]
      else if c = 0x0A then [0x5C, 0x6E]
      else if c = 0x0D then [0x5C, 0x72]
      else if c = 0x09 then [0x5C, 0x74]
      else if c < 0x20 \<or> isHighSurrogate c \<or> isLowSurrogate c then unicodeEscape c
      else [c])"

fun quoteUnits :: "jsString \<Rightarrow> jsString" where
  "quoteUnits [] = []"
| "quoteUnits [c] = escapeUnit c"
| "quoteUnits (c # d # r) =
     (if isHighSurrogate c \<and> isLowSurrogate d then c # d # quoteUnits r
      else escapeUnit c @ quoteUnits (d # r))"

definition quoteStr :: "jsString \<Rightarrow> jsString" where
  "quoteStr s = 0x22 # quoteUnits s @ [0x22]"

fun commaSep :: "jsString list \<Rightarrow> jsString" where
  "commaSep [] = []"
| "commaSep [x] = x"
| "commaSep (x # y # zs) = x @ 0x2C # commaSep (y # zs)"

primrec JSON_stringify :: "json \<Rightarrow> jsString" where
  "JSON_stringify JNull = js ''null''"
| "JSON_stringify (JBool b) = (if b then js ''true'' else js ''false'')"
| "JSON_stringify (JNum m x) = numberText m x"
| "JSON_stringify (JStr s) = quoteStr s"
| "JSON_stringify (JArr xs) = 0x5B # commaSep (map JSON_stringify xs) @ [0x5D]"
| "JSON_stringify (JObj kvs) =
     0x7B # commaSep (map (\<lambda>kv. quoteStr (fst kv) @ 0x3A # snd kv)
                          (map (map_prod id JSON_stringify) kvs)) @ [0x7D]"

subsection \<open>JSON.parse\<close>

text \<open>
  A recursive-descent parser for the JSON grammar. White space (tab, line feed, carriage
  return, space) is skipped around every token.
\<close>

definition jsonWs :: "nat \<Rightarrow> bool" where
  "jsonWs c \<longleftrightarrow> c \<in> {0x09, 0x0A, 0x0D, 0x20}"

definition skipWs :: "jsString \<Rightarrow> jsString" where
  "skipWs s = dropWhile jsonWs s"

text \<open>
  \<open>canonical m x\<close> is the number \<open>m * 10^x\<close> with the trailing zeros of the mantissa
  moved into the exponent.
\<close>

fun canonical :: "nat \<Rightarrow> int \<Rightarrow> nat \<times> int" where
  "canonical m x =
     (if m = 0 then (0, 0)
      else if m mod 10 = 0 then canonical (m div 10) (x + 1)
      else (m, x))"

declare canonical.simps [simp del]

text \<open>
  A number: an optional minus sign; the integer part, which is a single 0 or starts with
  a digit from 1 to 9; an optional fraction, a point and at least one digit; an optional
  exponent, \<open>e\<close> or \<open>E\<close>, an optional sign and at least one digit. Its value is the
  digits of the integer part and the fraction as one mantissa, with the exponent less
  the length of the fraction.
\<close>

definition parseFraction :: "jsString \<Rightarrow> (jsString \<times> jsString) option" where
  "parseFraction s =
     (if s \<noteq> [] \<and> hd s = 0x2E then
        (let fp = takeWhile isDigit (tl s) in
         if fp = [] then None else Some (fp, dropWhile isDigit (tl s)))
      else Some ([], s))"

definition parseExponent :: "jsString \<Rightarrow> (int \<times> jsString) option" where
  "parseExponent s =
     (if s \<noteq> [] \<and> (hd s = 0x65 \<or> hd s = 0x45) then
        (let s1 = tl s;
             neg = (s1 \<noteq> [] \<and> hd s1 = 0x2D);
             s2 = (if s1 \<noteq> [] \<and> (hd s1 = 0x2D \<or> hd s1 = 0x2B) then tl s1 else s1);
             ep = takeWhile isDigit s2
         in if ep = [] then None
            else Some (if neg then - int (natOfDigits ep) else int (natOfDigits ep),
                       dropWhile isDigit s2))
      else Some (0, s))"

definition parseUnsigned :: "jsString \<Rightarrow> ((nat \<times> int) \<times> jsString) option" where
  "parseUnsigned s =
     (let ip = takeWhile isDigit s in
      if ip = [] then None
      else if hd ip = 0x30 \<and> length ip > 1 then None
      else
        (case parseFraction (dropWhile isDigit s) of
           None \<Rightarrow> None
         | Some (fp, s3) \<Rightarrow>
             (case parseExponent s3 of
                None \<Rightarrow> None
              | Some (e, s6) \<Rightarrow>
                  Some (canonical (natOfDigits (ip @ fp)) (e - int (length fp)), s6))))"

definition parseNumber :: "jsString \<Rightarrow> (json \<times> jsString) option" where
  "parseNumber s =
     (if s \<noteq> [] \<and> hd s = 0x2D
      then map_option (\<lambda>(mx, r). (JNum (- int (fst mx)) (snd mx), r)) (parseUnsigned (tl s))
      else map_option (\<lambda>(mx, r). (JNum (int (fst mx)) (snd mx), r)) (parseUnsigned s))"

text \<open>
  The characters of a string up to its closing quote, with the escapes decoded: \<open>\"\<close>,
  \<open>\\\<close>, \<open>\/\<close>, \<open>\b\<close>, \<open>\f\<close>, \<open>\n\<close>, \<open>\r\<close>, \<open>\t\<close>, and \<open>\u\<close> with four hexadecimal digits in
  either case. A raw control character and an unknown escape are errors, and so is a
  missing closing quote.
\<close>

definition hexVal :: "nat \<Rightarrow> nat option" where
  "hexVal c =
     (if 0x30 \<le> c \<and> c \<le> 0x39 then Some (c - 0x30)
      else if 0x61 \<le> c \<and> c \<le> 0x66 then Some (c - 0x57)
      else if 0x41 \<le> c \<and> c \<le> 0x46 then Some (c - 0x37)
      else None)"

definition hex4 :: "nat \<Rightarrow> nat \<Rightarrow> nat \<Rightarrow> nat \<Rightarrow> nat option" where
  "hex4 a b c d =
     (case (hexVal a, hexVal b, hexVal c, hexVal d) of
        (Some x, Some y, Some z, Some w) \<Rightarrow> Some (4096 * x + 256 * y + 16 * z + w)
      | _ \<Rightarrow> None)"

definition unescape :: "nat \<Rightarrow> nat option" where
  "unescape e =
     (if e = 0x22 then Some 0x22
      else if e = 0x5C then Some 0x5C
      else if e = 0x2F then Some 0x2F
      else if e = 0x62 then Some 0x08
      else if e = 0x66 then Some 0x0C
      else if e = 0x6E then Some 0x0A
      else if e = 0x72 then Some 0x0D
      else if e = 0x74 then Some 0x09
      else None)"

definition consTo :: "nat \<Rightarrow> (jsString \<times> jsString) option \<Rightarrow> (jsString \<times> jsString) option" where
  "consTo c res = (case res of None \<Rightarrow> None | Some (str, r) \<Rightarrow> Some (c # str, r))"

fun parseChars :: "jsString \<Rightarrow> (jsString \<times> jsString) option" where
  "parseChars [] = None"
| "parseChars (c # r) =
     (if c = 0x22 then Some ([], r)
      else if c = 0x5C then
        (case r of
           [] \<Rightarrow> None
         | e # r1 \<Rightarrow>
             if e = 0x75 then
               (case r1 of
                  h1 # h2 # h3 # h4 # r2 \<Rightarrow>
                    (case hex4 h1 h2 h3 h4 of
                       None \<Rightarrow> None
                     | Some ch \<Rightarrow> consTo ch (parseChars r2))
                | _ \<Rightarrow> None)
             else
               (case unescape e of
                  None \<Rightarrow> None
                | Some ch \<Rightarrow> consTo ch (parseChars r1)))
      else if c < 0x20 then None
      else consTo c (parseChars r))"

text \<open>\<open>stripPrefix p s\<close> is the rest of \<open>s\<close> after the prefix \<open>p\<close>, for the three literals.\<close>

fun stripPrefix :: "jsString \<Rightarrow> jsString \<Rightarrow> jsString option" where
  "stripPrefix [] s = Some s"
| "stripPrefix (p # ps) [] = None"
| "stripPrefix (p # ps) (c # cs) = (if p = c then stripPrefix ps cs else None)"

text \<open>
  The three mutually recursive parsers take fuel, which each call decreases, and return
  the value read and the text left, or \<open>None\<close> on a syntax error or when the fuel runs
  out. \<open>parseElements\<close> reads the elements of a non-empty array up to its closing
  bracket, \<open>parseMembers\<close> the members of a non-empty object, in the order of the text, up
  to its closing brace; \<open>parseValue\<close> then builds the object from them.
\<close>

fun parseValue :: "nat \<Rightarrow> jsString \<Rightarrow> (json \<times> jsString) option"
  and parseElements :: "nat \<Rightarrow> jsString \<Rightarrow> (json list \<times> jsString) option"
  and parseMembers :: "nat \<Rightarrow> jsString \<Rightarrow> ((jsString \<times> json) list \<times> jsString) option"
where
  "parseValue 0 s = None"
| "parseValue (Suc n) s =
     (case skipWs s of
        [] \<Rightarrow> None
      | c # r \<Rightarrow>
          if c = 0x6E then map_option (Pair JNull) (stripPrefix (js ''ull'') r)
          else if c = 0x74 then map_option (Pair (JBool True)) (stripPrefix (js ''rue'') r)
          else if c = 0x66 then map_option (Pair (JBool False)) (stripPrefix (js ''alse'') r)
          else if c = 0x22 then map_option (apfst JStr) (parseChars r)
          else if c = 0x5B then
            (case skipWs r of
               [] \<Rightarrow> None
             | d # r' \<Rightarrow>
                 if d = 0x5D then Some (JArr [], r')
                 else map_option (apfst JArr) (parseElements n (d # r')))
          else if c = 0x7B then
            (case skipWs r of
               [] \<Rightarrow> None
             | d # r' \<Rightarrow>
                 if d = 0x7D then Some (JObj [], r')
                 else map_option (apfst (\<lambda>raw. JObj (objectOf raw))) (parseMembers n (d # r')))
          else parseNumber (c # r))"
| "parseElements 0 s = None"
| "parseElements (Suc n) s =
     (case parseValue n s of
        None \<Rightarrow> None
      | Some (v, r) \<Rightarrow>
          (case skipWs r of
             [] \<Rightarrow> None
           | c # r' \<Rightarrow>
               if c = 0x2C then map_option (apfst ((#) v)) (parseElements n r')
               else if c = 0x5D then Some ([v], r')
               else None))"
| "parseMembers 0 s = None"
| "parseMembers (Suc n) s =
     (case skipWs s of
        [] \<Rightarrow> None
      | q # r0 \<Rightarrow>
          if q \<noteq> 0x22 then None
          else
            (case parseChars r0 of
               None \<Rightarrow> None
             | Some (k, r1) \<Rightarrow>
                 (case skipWs r1 of
                    [] \<Rightarrow> None
                  | colon # r2 \<Rightarrow>
                      if colon \<noteq> 0x3A then None
                      else
                        (case parseValue n r2 of
                           None \<Rightarrow> None
                         | Some (v, r3) \<Rightarrow>
                             (case skipWs r3 of
                                [] \<Rightarrow> None
                              | c # r4 \<Rightarrow>
                                  if c = 0x2C then
                                    map_option (apfst ((#) (k, v))) (parseMembers n r4)
                                  else if c = 0x7D then Some ([(k, v)], r4)
                                  else None)))))"

text \<open>
  \<open>JSON.parse(s)\<close>: one value, and nothing but white space after it. The fuel is more
  than the length of the text; \<open>JSON_roundtrip\<close> below shows that it is enough for
  every text that \<open>JSON_stringify\<close> writes.
\<close>

definition JSON_parse :: "jsString \<Rightarrow> error + json" where
  "JSON_parse s =
     (case parseValue (Suc (length s)) s of
        None \<Rightarrow> Inl SyntaxError
      | Some (v, r) \<Rightarrow> if skipWs r = [] then Inr v else Inl SyntaxError)"

text \<open>
  The fuel that parsing the text of a value takes: one unit for the value, and one more
  for each element of an array and each member of an object.
\<close>

primrec fuelFor :: "json \<Rightarrow> nat" where
  "fuelFor JNull = 1"
| "fuelFor (JBool b) = 1"
| "fuelFor (JNum m x) = 1"
| "fuelFor (JStr s) = 1"
| "fuelFor (JArr xs) = Suc (sum_list (map Suc (map fuelFor xs)))"
| "fuelFor (JObj kvs) = Suc (sum_list (map (\<lambda>kv. Suc (snd kv)) (map (map_prod id fuelFor) kvs)))"

text \<open>What may follow the text of a value: nothing, a comma, or a closing bracket.\<close>

definition valueEnds :: "jsString \<Rightarrow> bool" where
  "valueEnds rest \<longleftrightarrow> rest = [] \<or> hd rest \<in> {0x2C, 0x5D, 0x7D}"

text \<open>What may follow a number: nothing, or a character that does not continue it.\<close>

definition numberEnds :: "jsString \<Rightarrow> bool" where
  "numberEnds rest \<longleftrightarrow>
     rest = [] \<or> (\<not> isDigit (hd rest) \<and> hd rest \<notin> {0x2E, 0x65, 0x45})"

subsection \<open>localStorage, save and load\<close>

text \<open>
  \<open>localStorage\<close> maps keys to strings; \<open>getItem\<close> of a missing key is \<open>null\<close>, here
  \<open>None\<close>. Writing is taken to succeed, as the code and the specification take it.
\<close>

type_synonym storage = "jsString \<rightharpoonup> jsString"

definition setItem :: "jsString \<Rightarrow> jsString \<Rightarrow> storage \<Rightarrow> storage" where
  "setItem k s st = st(k \<mapsto> s)"

definition getItem :: "jsString \<Rightarrow> storage \<Rightarrow> jsString option" where
  "getItem k st = st k"

text \<open>The storage with nothing stored, as on a first visit.\<close>

definition noItems :: storage where
  "noItems = Map.empty"

text \<open>\<open>save\<close>, line 30; the result is the storage after the write.\<close>

definition save :: "jsString \<Rightarrow> json \<Rightarrow> storage \<Rightarrow> storage" where
  "save k v st = setItem k (JSON_stringify v) st"

text \<open>
  \<open>JSON.parse\<close> converts its argument to a string first, so the \<open>null\<close> that \<open>getItem\<close>
  returns for a missing key is parsed as the text \<open>null\<close>.
\<close>

definition parseArg :: "jsString option \<Rightarrow> jsString" where
  "parseArg a = (case a of None \<Rightarrow> js ''null'' | Some s \<Rightarrow> s)"

text \<open>
  \<open>load\<close>, lines 31-38. \<open>loadTry\<close> is the body of the \<open>try\<close> block: it throws what
  \<open>JSON.parse\<close> throws (\<open>Inl\<close>), and otherwise returns \<open>v ?? fallback\<close>. \<open>load\<close> adds the
  \<open>catch\<close>, which returns the fallback.
\<close>

definition loadTry :: "jsString \<Rightarrow> json \<Rightarrow> storage \<Rightarrow> error + json" where
  "loadTry k fallback st =
     (case JSON_parse (parseArg (getItem k st)) of
        Inl e \<Rightarrow> Inl e
      | Inr v \<Rightarrow> Inr (if v = JNull then fallback else v))"

definition load :: "jsString \<Rightarrow> json \<Rightarrow> storage \<Rightarrow> json" where
  "load k fallback st = (case loadTry k fallback st of Inl e \<Rightarrow> fallback | Inr r \<Rightarrow> r)"

section \<open>Sample data\<close>

text \<open>Three products and a cart, used to run the operations on concrete inputs.\<close>

definition shirt :: product where
  "shirt = \<lparr>id' = js ''p1'', name = js ''Shirt'', price = 169000, category = js ''Shirts'',
            stock = 120, rating = 48 / 10, images = Some [Some (js ''/img-1.jpg'')],
            description = js ''Cotton''\<rparr>"

definition mug :: product where
  "mug = \<lparr>id' = js ''p2'', name = js ''Mug'', price = 99000, category = js ''Accessories'',
            stock = 80, rating = 47 / 10, images = Some [Some (js ''/img-3.jpg'')],
            description = js ''Ceramic''\<rparr>"

definition notebook :: product where
  "notebook = \<lparr>id' = js ''p4'', name = js ''Notebook'', price = 110000,
            category = js ''Accessories'', stock = 60, rating = 49 / 10,
            images = Some [Some (js ''/img-5.jpg'')], description = js ''Leather''\<rparr>"

definition mugLine :: cartLine where
  "mugLine = \<lparr>id' = js ''p2'', name = js ''Mug'', price = 99000, qty = 2,
              image = Some (js ''/img-3.jpg'')\<rparr>"

definition shirtLine :: cartLine where
  "shirtLine = \<lparr>id' = js ''p1'', name = js ''Shirt'', price = 169000, qty = 5,
                image = Some (js ''/img-1.jpg'')\<rparr>"

text \<open>
  A catalog of one product, the first of \<open>DEFAULT_PRODUCTS\<close> (lines 41-50), as the JSON
  value that \<open>save("vk_products", products)\<close> writes; the identifier is one that
  \<open>uid()\<close> can draw, and the name is cut after its first three words.
\<close>

definition sampleCatalog :: json where
  "sampleCatalog =
     JArr [JObj [(js ''id'', JStr (js ''k3x9q2a'')),
                 (js ''name'', JStr ([0xC1, 0x6F] @ js '' thun Vi'' @ [0x1EC7] @ js ''t K'' @ [0xFD])),
                 (js ''price'', JNum 169 3),
                 (js ''category'', JStr ([0xC1, 0x6F] @ js '' thun'')),
                 (js ''stock'', JNum 12 1),
                 (js ''rating'', JNum 48 (- 1)),
                 (js ''images'', JArr [JStr (js ''/img-1.jpg'')]),
                 (js ''description'', JStr (js ''Cotton 100%''))]]"

section \<open>The cart: merging on add\<close>

lemma addToCart_absent:
  assumes "\<forall>l \<in> set cart. id' l \<noteq> id' p"
  shows "addToCart p a cart =
           cart @ [\<lparr>id' = id' p, name = name p, price = price p,
                    qty = callQty (p, a), image = firstImage p\<rparr>]"
proof -
  have "find (\<lambda>i. id' i = id' p) cart = None"
    using assms by (simp add: find_None_iff Bex_def Ball_def)
  then show ?thesis
    by (simp add: addToCart_def callQty_def)
qed

lemma addToCart_present:
  assumes "\<exists>l \<in> set cart. id' l = id' p"
  shows "addToCart p a cart =
           map (\<lambda>i. if id' i = id' p then i\<lparr>qty := qty i + callQty (p, a)\<rparr> else i) cart"
proof -
  have "find (\<lambda>i. id' i = id' p) cart \<noteq> None"
    using assms by (simp add: find_None_iff Bex_def Ball_def)
  then show ?thesis
    by (simp add: addToCart_def callQty_def)
qed

lemma filter_map_increment:
  "filter (\<lambda>l. id' l = pid) (map (\<lambda>i. if id' i = pid then i\<lparr>qty := qty i + q\<rparr> else i) cart)
     = map (\<lambda>i. i\<lparr>qty := qty i + q\<rparr>) (filter (\<lambda>l. id' l = pid) cart)"
  by (induction cart) simp_all

lemma addToCart_merges:
  assumes one: "filter (\<lambda>l. id' l = pid) cart = [l]" and p: "id' p = pid"
  shows "filter (\<lambda>l. id' l = pid) (addToCart p a cart) = [l\<lparr>qty := qty l + callQty (p, a)\<rparr>]"
proof -
  have "l \<in> set (filter (\<lambda>l. id' l = pid) cart)"
    by (simp add: one)
  then have "\<exists>l \<in> set cart. id' l = id' p"
    using p by (intro bexI [of _ l]) simp_all
  then show ?thesis
    by (simp add: addToCart_present p filter_map_increment one)
qed

lemma addAll_merges:
  assumes "filter (\<lambda>l. id' l = pid) cart = [l]"
    and "\<forall>c \<in> set calls. id' (fst c) = pid"
  shows "\<exists>l'. filter (\<lambda>l. id' l = pid) (addAll calls cart) = [l']
              \<and> qty l' = qty l + sum_list (map callQty calls)"
  using assms
proof (induction calls arbitrary: cart l)
  case Nil
  then show ?case by simp
next
  case (Cons c calls)
  obtain p a where c: "c = (p, a)" by (cases c)
  have p: "id' p = pid" using Cons.prems(2) c by simp
  have step: "filter (\<lambda>l. id' l = pid) (addToCart p a cart) = [l\<lparr>qty := qty l + callQty (p, a)\<rparr>]"
    using Cons.prems(1) p by (rule addToCart_merges)
  have rest: "\<forall>c \<in> set calls. id' (fst c) = pid" using Cons.prems(2) by simp
  from Cons.IH [OF step rest]
  obtain l' where l': "filter (\<lambda>l. id' l = pid) (addAll calls (addToCart p a cart)) = [l']"
    and q: "qty l' = qty (l\<lparr>qty := qty l + callQty (p, a)\<rparr>) + sum_list (map callQty calls)"
    by blast
  show ?case
    using l' q by (simp add: c)
qed

text \<open>
  Claim C1. Start from a cart with no line item for the identifier \<open>pid\<close> and make one or
  more \<open>addToCart\<close> calls, each with a product of that identifier. The lines of the
  resulting cart that carry \<open>pid\<close> are exactly one line, and its quantity is the sum of
  the quantities of the calls, a call without a quantity counting 1.
\<close>

theorem addToCart_sequence:
  assumes absent: "\<forall>l \<in> set cart. id' l \<noteq> pid"
    and nonempty: "calls \<noteq> []"
    and same: "\<forall>c \<in> set calls. id' (fst c) = pid"
  shows "\<exists>l. filter (\<lambda>l. id' l = pid) (addAll calls cart) = [l]
            \<and> qty l = sum_list (map callQty calls)"
proof -
  obtain p a rest where calls: "calls = (p, a) # rest"
    using nonempty by (cases calls) auto
  have p: "id' p = pid" using same calls by simp
  have none: "filter (\<lambda>l. id' l = pid) cart = []"
    using absent by simp
  have "addToCart p a cart =
           cart @ [\<lparr>id' = id' p, name = name p, price = price p,
                    qty = callQty (p, a), image = firstImage p\<rparr>]"
    using absent p by (intro addToCart_absent) simp
  then have first: "filter (\<lambda>l. id' l = pid) (addToCart p a cart) =
      [\<lparr>id' = id' p, name = name p, price = price p, qty = callQty (p, a), image = firstImage p\<rparr>]"
    using none p by simp
  have rest: "\<forall>c \<in> set rest. id' (fst c) = pid" using same calls by simp
  from addAll_merges [OF first rest]
  show ?thesis by (simp add: calls)
qed

text \<open>
  Three calls for the shirt (quantities 1 by default, 3, and 1 by default) on a cart
  that holds two mugs: one shirt line, with quantity 5.
\<close>

theorem addToCart_sequence_witness:
  "js ''p1'' \<notin> id' ` set [mugLine]
   \<and> [(shirt, None), (shirt, Some 3), (shirt, None)] \<noteq> []
   \<and> map (id' \<circ> fst) [(shirt, None), (shirt, Some 3), (shirt, None)] = [js ''p1'', js ''p1'', js ''p1'']
   \<and> addAll [(shirt, None), (shirt, Some 3), (shirt, None)] [mugLine] = [mugLine, shirtLine]
   \<and> filter (\<lambda>l. id' l = js ''p1'') (addAll [(shirt, None), (shirt, Some 3), (shirt, None)] [mugLine])
       = [shirtLine]
   \<and> qty shirtLine = sum_list (map callQty [(shirt, None), (shirt, Some 3), (shirt, None)])"
  using addToCart_sequence [of "[mugLine]" "js ''p1''" "[(shirt, None), (shirt, Some 3), (shirt, None)]"]
  by (simp add: addToCart_def shirt_def mugLine_def shirtLine_def firstImage_def callQty_def js_def)

section \<open>Pricing\<close>

lemma foldl_add_sum: "foldl (\<lambda>s i. s + f i) a xs = a + sum_list (map f xs)" for a :: int
  by (induction xs arbitrary: a) (simp_all add: add.assoc)

lemma total_sum: "total cart = (\<Sum>i\<leftarrow>cart. price i * qty i)"
  by (simp add: total_def foldl_add_sum)

lemma Math_round_tenth: "Math_round (of_int t * (1 / 10)) = (t + 5) div 10"
proof -
  have "of_int t * (1 / 10) + 1 / 2 = (of_int (t + 5) :: real) / of_int 10"
    by simp
  then have "Math_round (of_int t * (1 / 10)) = \<lfloor>(of_int (t + 5) :: real) / of_int 10\<rfloor>"
    by (simp only: Math_round_def)
  also have "\<dots> = (t + 5) div 10"
    by (rule floor_divide_of_int_eq)
  finally show ?thesis .
qed

subsection \<open>The coupon\<close>

text \<open>What \<open>trim\<close> returns is the string between a run of white space at each end.\<close>

lemma trim_decompose:
  "\<exists>pre post. s = pre @ trim s @ post
     \<and> (\<forall>c \<in> set pre. isWhiteSpace c) \<and> (\<forall>c \<in> set post. isWhiteSpace c)"
proof -
  define d where "d = dropWhile isWhiteSpace s"
  have s: "s = takeWhile isWhiteSpace s @ d"
    by (simp add: d_def)
  have "rev (dropWhile isWhiteSpace (rev d)) @ rev (takeWhile isWhiteSpace (rev d)) = d"
    by (metis rev_append rev_rev_ident takeWhile_dropWhile_id)
  then have d: "d = trim s @ rev (takeWhile isWhiteSpace (rev d))"
    unfolding trim_def d_def by (rule sym)
  have pre: "\<forall>c \<in> set (takeWhile isWhiteSpace s). isWhiteSpace c"
    by (auto dest: set_takeWhileD)
  have post: "\<forall>c \<in> set (rev (takeWhile isWhiteSpace (rev d))). isWhiteSpace c"
    by (auto dest: set_takeWhileD)
  from s d have "s = takeWhile isWhiteSpace s @ trim s @ rev (takeWhile isWhiteSpace (rev d))"
    by simp
  with pre post show ?thesis by blast
qed

lemma trim_between:
  assumes "\<forall>c \<in> set pre. isWhiteSpace c" and "\<forall>c \<in> set post. isWhiteSpace c"
    and "core \<noteq> []" and "\<not> isWhiteSpace (hd core)" and "\<not> isWhiteSpace (last core)"
  shows "trim (pre @ core @ post) = core"
proof -
  have "dropWhile isWhiteSpace (pre @ core @ post) = dropWhile isWhiteSpace (core @ post)"
    using assms(1) by (simp add: dropWhile_append2)
  also have "\<dots> = core @ post"
    using assms(3,4) by (cases core) simp_all
  finally have front: "dropWhile isWhiteSpace (pre @ core @ post) = core @ post" .
  have "dropWhile isWhiteSpace (rev post @ rev core) = dropWhile isWhiteSpace (rev core)"
    using assms(2) by (intro dropWhile_append2) simp
  also have "\<dots> = rev core"
    using assms(3,5) by (cases "rev core") (simp_all add: hd_rev)
  finally show ?thesis
    by (simp add: trim_def front)
qed

lemma upperUnit_head:
  assumes "u \<in> couponAlphabet" and "set t \<subseteq> couponAlphabet"
  shows "upperUnit c @ r = u # t \<longleftrightarrow>
     (c = u \<or> (0x41 \<le> u \<and> u \<le> 0x5A \<and> c = u + 0x20) \<or> (u = 0x49 \<and> c = 0x131)) \<and> r = t"
proof -
  consider "0x61 \<le> c \<and> c \<le> 0x7A" | "c = 0x131"
    | "c \<in> {0xDF, 0x149, 0x17F, 0x1F0, 0x1E96, 0x1E97, 0x1E98, 0x1E99, 0x1E9A,
             0xFB00, 0xFB01, 0xFB02, 0xFB03, 0xFB04, 0xFB05, 0xFB06}"
    | "\<not> (0x61 \<le> c \<and> c \<le> 0x7A)" "c \<noteq> 0x131"
      "c \<notin> {0xDF, 0x149, 0x17F, 0x1F0, 0x1E96, 0x1E97, 0x1E98, 0x1E99, 0x1E9A,
             0xFB00, 0xFB01, 0xFB02, 0xFB03, 0xFB04, 0xFB05, 0xFB06}"
    by blast
  then show ?thesis
  proof cases
    case 1
    then have up: "upperUnit c = [c - 0x20]"
      by (simp add: upperUnit_def)
    show ?thesis
      unfolding up using 1 assms(1) by (auto simp: couponAlphabet_def)
  next
    case 2
    then have up: "upperUnit c = [0x49]"
      by (simp add: upperUnit_def)
    show ?thesis
      unfolding up using 2 assms(1) by (auto simp: couponAlphabet_def)
  next
    case 3
    then have "\<exists>a \<in> set (upperUnit c). a \<notin> couponAlphabet"
      by (auto simp: upperUnit_def couponAlphabet_def)
    then have "upperUnit c @ r \<noteq> u # t"
      using assms by (metis Un_iff set_ConsD set_append subsetD)
    moreover have "\<not> (c = u \<or> (0x41 \<le> u \<and> u \<le> 0x5A \<and> c = u + 0x20) \<or> (u = 0x49 \<and> c = 0x131))"
      using 3 assms(1) by (auto simp: couponAlphabet_def)
    ultimately show ?thesis by blast
  next
    case 4
    then have up: "upperUnit c = [c]"
      by (auto simp: upperUnit_def)
    show ?thesis
      unfolding up using 4 assms(1) by (auto simp: couponAlphabet_def)
  qed
qed

lemma toUpperCase_target:
  assumes "set t \<subseteq> couponAlphabet"
  shows "toUpperCase s = t \<longleftrightarrow>
     list_all2 (\<lambda>c u. c = u \<or> (0x41 \<le> u \<and> u \<le> 0x5A \<and> c = u + 0x20)
                      \<or> (u = 0x49 \<and> c = 0x131)) s t"
  using assms
proof (induction s arbitrary: t)
  case Nil
  show ?case by (auto simp: toUpperCase_def)
next
  case (Cons c s)
  show ?case
  proof (cases t)
    case Nil
    have "upperUnit c \<noteq> []"
      by (simp add: upperUnit_def)
    then show ?thesis
      by (simp add: Nil toUpperCase_def)
  next
    case (Cons u t')
    have u: "u \<in> couponAlphabet" and t': "set t' \<subseteq> couponAlphabet"
      using Cons.prems Cons by simp_all
    have "toUpperCase (c # s) = u # t' \<longleftrightarrow> upperUnit c @ toUpperCase s = u # t'"
      by (simp add: toUpperCase_def)
    also have "\<dots> \<longleftrightarrow>
        (c = u \<or> (0x41 \<le> u \<and> u \<le> 0x5A \<and> c = u + 0x20) \<or> (u = 0x49 \<and> c = 0x131))
        \<and> toUpperCase s = t'"
      by (rule upperUnit_head [OF u t'])
    finally show ?thesis
      using Cons.IH [OF t'] by (simp add: Cons)
  qed
qed

lemma coupon_literal: "js ''VIETKY10'' = [0x56, 0x49, 0x45, 0x54, 0x4B, 0x59, 0x31, 0x30]"
  by (simp add: js_def)

lemma coupon_accepted:
  "toUpperCase (trim coupon) = js ''VIETKY10'' \<longleftrightarrow>
     (\<exists>pre core post. coupon = pre @ core @ post
        \<and> (\<forall>c \<in> set pre. c \<in> {0x09, 0x0A, 0x0B, 0x0C, 0x0D, 0x20, 0xA0, 0x1680, 0x2028,
                                  0x2029, 0x202F, 0x205F, 0x3000, 0xFEFF} \<union> {0x2000..0x200A})
        \<and> (\<forall>c \<in> set post. c \<in> {0x09, 0x0A, 0x0B, 0x0C, 0x0D, 0x20, 0xA0, 0x1680, 0x2028,
                                   0x2029, 0x202F, 0x205F, 0x3000, 0xFEFF} \<union> {0x2000..0x200A})
        \<and> list_all2 (\<lambda>c u. c = u \<or> (0x41 \<le> u \<and> u \<le> 0x5A \<and> c = u + 0x20)
                           \<or> (u = 0x49 \<and> c = 0x131))
             core [0x56, 0x49, 0x45, 0x54, 0x4B, 0x59, 0x31, 0x30])"
  (is "?L \<longleftrightarrow> ?R")
proof -
  let ?T = "[0x56, 0x49, 0x45, 0x54, 0x4B, 0x59, 0x31, 0x30] :: nat list"
  let ?M = "\<lambda>c u :: nat. c = u \<or> (0x41 \<le> u \<and> u \<le> 0x5A \<and> c = u + 0x20) \<or> (u = 0x49 \<and> c = 0x131)"
  have T: "set ?T \<subseteq> couponAlphabet"
    by (simp add: couponAlphabet_def)
  have ws: "isWhiteSpace c \<longleftrightarrow>
      c \<in> {0x09, 0x0A, 0x0B, 0x0C, 0x0D, 0x20, 0xA0, 0x1680, 0x2028, 0x2029, 0x202F, 0x205F,
           0x3000, 0xFEFF} \<union> {0x2000..0x200A}" for c
    by (auto simp: isWhiteSpace_def)
  show ?thesis
  proof
    assume ?L
    then have m: "list_all2 ?M (trim coupon) ?T"
      using toUpperCase_target [OF T, of "trim coupon"] by (simp add: coupon_literal)
    obtain pre post where "coupon = pre @ trim coupon @ post"
      and "\<forall>c \<in> set pre. isWhiteSpace c" and "\<forall>c \<in> set post. isWhiteSpace c"
      using trim_decompose by blast
    then show ?R
      using m unfolding ws by blast
  next
    assume ?R
    then obtain pre core post where c: "coupon = pre @ core @ post"
      and pre: "\<forall>c \<in> set pre. isWhiteSpace c" and post: "\<forall>c \<in> set post. isWhiteSpace c"
      and m: "list_all2 ?M core ?T"
      unfolding ws by blast
    from m obtain c0 c1 c2 c3 c4 c5 c6 c7 where core: "core = [c0, c1, c2, c3, c4, c5, c6, c7]"
      and first: "c0 = 0x56 \<or> c0 = 0x76" and final: "c7 = 0x30"
      by (auto simp: list_all2_Cons2)
    have "trim coupon = core"
      unfolding c using pre post
    proof (rule trim_between)
      show "core \<noteq> []" by (simp add: core)
      show "\<not> isWhiteSpace (hd core)" using first by (auto simp: core isWhiteSpace_def)
      show "\<not> isWhiteSpace (last core)" using final by (simp add: core isWhiteSpace_def)
    qed
    then show ?L
      using m toUpperCase_target [OF T, of core] by (simp add: coupon_literal)
  qed
qed

lemma normalize_examples:
  "toUpperCase (trim (js ''vietky10'')) = js ''VIETKY10''"
  "toUpperCase (trim (js '' VIETKY10 '')) = js ''VIETKY10''"
  "toUpperCase (trim (js ''VietKy10'')) = js ''VIETKY10''"
  "toUpperCase (trim (0xA0 # js ''VIETKY10'' @ [0xA0])) = js ''VIETKY10''"
  "toUpperCase (trim (js ''VIETKY1O'')) \<noteq> js ''VIETKY10''"
  by (simp_all add: js_def trim_def isWhiteSpace_def toUpperCase_def upperUnit_def)

text \<open>
  Claim C2. For every cart and coupon string, with the subtotal and the shipping fee of
  the cart passed to the checkout footer: the discount is a tenth of the subtotal rounded
  to the nearest integer, a half upwards, when the coupon, trimmed and uppercased, is
  \<open>VIETKY10\<close>, and 0 for every other string; the coupons accepted are \<open>VIETKY10\<close> in
  upper or lower case (or with a dotless i, whose upper case is I) between any white
  space; the grand total is \<open>max(0, subtotal + shippingFee - discount)\<close> and therefore
  never negative.
\<close>

theorem checkout_pricing:
  "discount (total cart) coupon =
     (if toUpperCase (trim coupon) = js ''VIETKY10'' then (total cart + 5) div 10 else 0)
   \<and> (toUpperCase (trim coupon) = js ''VIETKY10'' \<longleftrightarrow>
        (\<exists>pre core post. coupon = pre @ core @ post
           \<and> (\<forall>c \<in> set pre. c \<in> {0x09, 0x0A, 0x0B, 0x0C, 0x0D, 0x20, 0xA0, 0x1680, 0x2028,
                                     0x2029, 0x202F, 0x205F, 0x3000, 0xFEFF} \<union> {0x2000..0x200A})
           \<and> (\<forall>c \<in> set post. c \<in> {0x09, 0x0A, 0x0B, 0x0C, 0x0D, 0x20, 0xA0, 0x1680, 0x2028,
                                      0x2029, 0x202F, 0x205F, 0x3000, 0xFEFF} \<union> {0x2000..0x200A})
           \<and> list_all2 (\<lambda>c u. c = u \<or> (0x41 \<le> u \<and> u \<le> 0x5A \<and> c = u + 0x20)
                              \<or> (u = 0x49 \<and> c = 0x131))
                core [0x56, 0x49, 0x45, 0x54, 0x4B, 0x59, 0x31, 0x30]))
   \<and> grand (total cart) (shippingFee (total cart)) coupon =
       max 0 (total cart + shippingFee (total cart) - discount (total cart) coupon)
   \<and> 0 \<le> grand (total cart) (shippingFee (total cart)) coupon"
proof (intro conjI)
  show "discount (total cart) coupon =
     (if toUpperCase (trim coupon) = js ''VIETKY10'' then (total cart + 5) div 10 else 0)"
    unfolding discount_def Math_round_tenth by (rule refl)
  show "grand (total cart) (shippingFee (total cart)) coupon =
       max 0 (total cart + shippingFee (total cart) - discount (total cart) coupon)"
    by (simp add: grand_def)
  show "0 \<le> grand (total cart) (shippingFee (total cart)) coupon"
    by (simp add: grand_def)
qed (rule coupon_accepted)

text \<open>
  The specification's example: two shirts at 169000 make a subtotal of 338000 and a
  shipping fee of 30000; the coupon in three spellings, and between two no-break spaces,
  gives the discount 33800 and the grand total 334200; a coupon ending in the letter O
  instead of the digit 0 gives no discount and the grand total 368000. A subtotal of
  169005 has the tenth 16900.5, which is rounded up to 16901.
\<close>

theorem checkout_pricing_witness:
  "total [shirtLine\<lparr>qty := 2\<rparr>] = 338000
   \<and> shippingFee (total [shirtLine\<lparr>qty := 2\<rparr>]) = 30000
   \<and> discount (total [shirtLine\<lparr>qty := 2\<rparr>]) (js ''vietky10'') = 33800
   \<and> discount (total [shirtLine\<lparr>qty := 2\<rparr>]) (js '' VIETKY10 '') = 33800
   \<and> discount (total [shirtLine\<lparr>qty := 2\<rparr>]) (js ''VietKy10'') = 33800
   \<and> discount (total [shirtLine\<lparr>qty := 2\<rparr>]) (0xA0 # js ''VIETKY10'' @ [0xA0]) = 33800
   \<and> discount (total [shirtLine\<lparr>qty := 2\<rparr>]) (js ''VIETKY1O'') = 0
   \<and> grand (total [shirtLine\<lparr>qty := 2\<rparr>]) (shippingFee (total [shirtLine\<lparr>qty := 2\<rparr>]))
         (js ''VietKy10'') = 334200
   \<and> grand (total [shirtLine\<lparr>qty := 2\<rparr>]) (shippingFee (total [shirtLine\<lparr>qty := 2\<rparr>]))
         (js ''VIETKY1O'') = 368000
   \<and> total [shirtLine\<lparr>price := 169005, qty := 1\<rparr>] = 169005
   \<and> discount (total [shirtLine\<lparr>price := 169005, qty := 1\<rparr>]) (js ''vietky10'') = 16901"
proof -
  have t: "total [shirtLine\<lparr>qty := 2\<rparr>] = 338000"
    "total [shirtLine\<lparr>price := 169005, qty := 1\<rparr>] = 169005"
    by (simp_all add: total_def shirtLine_def)
  note c = conjunct1 conjunct2 [THEN conjunct2]
  show ?thesis
    using checkout_pricing [of "[shirtLine\<lparr>qty := 2\<rparr>]" "js ''vietky10''", THEN conjunct1]
      checkout_pricing [of "[shirtLine\<lparr>qty := 2\<rparr>]" "js '' VIETKY10 ''", THEN conjunct1]
      checkout_pricing [of "[shirtLine\<lparr>qty := 2\<rparr>]" "js ''VietKy10''", THEN c(2)]
      checkout_pricing [of "[shirtLine\<lparr>qty := 2\<rparr>]" "js ''VietKy10''", THEN conjunct1]
      checkout_pricing [of "[shirtLine\<lparr>qty := 2\<rparr>]" "0xA0 # js ''VIETKY10'' @ [0xA0]",
        THEN conjunct1]
      checkout_pricing [of "[shirtLine\<lparr>qty := 2\<rparr>]" "js ''VIETKY1O''", THEN c(2)]
      checkout_pricing [of "[shirtLine\<lparr>qty := 2\<rparr>]" "js ''VIETKY1O''", THEN conjunct1]
      checkout_pricing [of "[shirtLine\<lparr>price := 169005, qty := 1\<rparr>]" "js ''vietky10''",
        THEN conjunct1]
    by (simp add: t shippingFee_def normalize_examples)
qed

subsection \<open>Subtotal and shipping fee\<close>

text \<open>
  Claim C3. The subtotal of a cart is the sum over its line items of price times
  quantity. The shipping fee is 0 when the subtotal is strictly greater than 500000 and
  30000 otherwise: a subtotal of 500000 pays 30000, a subtotal of 500001 pays nothing.
\<close>

theorem subtotal_and_shipping:
  "total cart = (\<Sum>i\<leftarrow>cart. price i * qty i)
   \<and> shippingFee (total cart) = (if total cart > 500000 then 0 else 30000)
   \<and> (total cart = 500000 \<longrightarrow> shippingFee (total cart) = 30000)
   \<and> (total cart = 500001 \<longrightarrow> shippingFee (total cart) = 0)"
  by (simp add: total_sum shippingFee_def)

theorem subtotal_and_shipping_witness:
  "total [\<lparr>id' = js ''a'', name = js ''A'', price = 250000, qty = 2, image = None\<rparr>] = 500000
   \<and> shippingFee (total [\<lparr>id' = js ''a'', name = js ''A'', price = 250000, qty = 2, image = None\<rparr>])
       = 30000
   \<and> total [\<lparr>id' = js ''a'', name = js ''A'', price = 250000, qty = 2, image = None\<rparr>,
            \<lparr>id' = js ''b'', name = js ''B'', price = 1, qty = 1, image = None\<rparr>] = 500001
   \<and> shippingFee (total [\<lparr>id' = js ''a'', name = js ''A'', price = 250000, qty = 2, image = None\<rparr>,
            \<lparr>id' = js ''b'', name = js ''B'', price = 1, qty = 1, image = None\<rparr>]) = 0"
  using subtotal_and_shipping [of "[\<lparr>id' = js ''a'', name = js ''A'', price = 250000, qty = 2,
                                     image = None\<rparr>]"]
    subtotal_and_shipping [of "[\<lparr>id' = js ''a'', name = js ''A'', price = 250000, qty = 2, image = None\<rparr>,
            \<lparr>id' = js ''b'', name = js ''B'', price = 1, qty = 1, image = None\<rparr>]"]
  by simp

section \<open>The cart: changing a quantity\<close>

text \<open>
  Claim C4. When the cart holds a line item with identifier \<open>i\<close>, at position \<open>k\<close>,
  \<open>updateQty(i, q)\<close> keeps the cart's length and stores \<open>max(1, q)\<close> as that line's
  quantity, the other fields of the line unchanged; the stored quantity is at least 1,
  and exactly 1 for every \<open>q \<le> 0\<close>.
\<close>

theorem updateQty_clamps:
  assumes "k < length cart" and "id' (cart ! k) = i"
  shows "length (updateQty i q cart) = length cart
     \<and> updateQty i q cart ! k = (cart ! k)\<lparr>qty := max 1 q\<rparr>
     \<and> qty (updateQty i q cart ! k) = max 1 q
     \<and> 1 \<le> qty (updateQty i q cart ! k)
     \<and> (q \<le> 0 \<longrightarrow> qty (updateQty i q cart ! k) = 1)"
  using assms by (simp add: updateQty_def)

theorem updateQty_clamps_witness:
  "1 < length [mugLine, shirtLine] \<and> id' ([mugLine, shirtLine] ! 1) = js ''p1''
   \<and> updateQty (js ''p1'') (- 3) [mugLine, shirtLine] = [mugLine, shirtLine\<lparr>qty := 1\<rparr>]
   \<and> qty (updateQty (js ''p1'') (- 3) [mugLine, shirtLine] ! 1) = 1"
  using updateQty_clamps [of 1 "[mugLine, shirtLine]" "js ''p1''" "- 3"]
  by (simp add: updateQty_def mugLine_def shirtLine_def js_def)

text \<open>
  Claim C10. When no line item of the cart has the identifier \<open>i\<close>, \<open>updateQty(i, q)\<close>
  returns the cart as it was, element by element, for every \<open>q\<close>.
\<close>

theorem updateQty_absent:
  assumes "\<forall>l \<in> set cart. id' l \<noteq> i"
  shows "updateQty i q cart = cart"
  unfolding updateQty_def using assms by (intro map_idI) simp

theorem updateQty_absent_witness:
  "js ''p9'' \<notin> id' ` set [mugLine, shirtLine]
   \<and> updateQty (js ''p9'') 7 [mugLine, shirtLine] = [mugLine, shirtLine]"
  using updateQty_absent [of "[mugLine, shirtLine]" "js ''p9''" 7]
  by (simp add: mugLine_def shirtLine_def js_def)

section \<open>Query engine\<close>

lemma includes_sublist: "includes' hay needle \<longleftrightarrow> sublist needle hay"
  by (induction hay) (simp_all add: sublist_Cons_right)

lemma filtered_popular:
  "filtered toLowerCase ps q c (js ''popular'') =
     sort_key (\<lambda>p. - rating p)
       (filter (\<lambda>p. (q = [] \<or> sublist (toLowerCase q) (toLowerCase (name p)))
                    \<and> (c = js ''all'' \<or> category p = c)) ps)"
proof -
  have modes: "js ''popular'' \<noteq> js ''priceAsc''" "js ''popular'' \<noteq> js ''priceDesc''"
    by (simp_all add: js_def)
  have "filter (\<lambda>p. category p = c)
          (filter (\<lambda>p. includes' (toLowerCase (name p)) (toLowerCase q)) ps)
      = filter (\<lambda>p. sublist (toLowerCase q) (toLowerCase (name p)) \<and> category p = c) ps"
    by (simp add: includes_sublist conj_commute)
  then show ?thesis
    using modes by (simp add: filtered_def Let_def includes_sublist)
qed

lemma sorted_desc_sort_key:
  "sorted_wrt (\<lambda>a b. rating b \<le> rating a) (sort_key (\<lambda>p. - rating p) xs)"
proof -
  have "sorted (map (\<lambda>p. - rating p) (sort_key (\<lambda>p. - rating p) xs))"
    by (rule sorted_sort_key)
  then show ?thesis
    by (simp add: sorted_map)
qed

lemma sample_ratings: "rating mug = 47 / 10" "rating notebook = 49 / 10"
  by (simp_all add: mug_def notebook_def)

text \<open>
  Claim C5. The sort mode is one of the three values the select offers. For each of them
  other than \<open>priceAsc\<close> and \<open>priceDesc\<close>, and every catalog, search text and category,
  the sort mode is \<open>popular\<close>, so a sort mode always matches, and the result is the
  filtered list sorted descending by rating: the products whose lower-cased name
  contains the lower-cased search text (all of them for an empty search text) and whose
  category is the one asked for (all of them for \<open>all\<close>), stably sorted by falling
  rating.
\<close>

theorem filtered_sort_modes:
  assumes "sortMode \<in> set sortOptions"
    and "sortMode \<noteq> js ''priceAsc''" and "sortMode \<noteq> js ''priceDesc''"
  shows "sortMode = js ''popular''
     \<and> filtered toLowerCase products query cat sortMode =
         sort_key (\<lambda>p. - rating p)
           (filter (\<lambda>p. (query = [] \<or> sublist (toLowerCase query) (toLowerCase (name p)))
                        \<and> (cat = js ''all'' \<or> category p = cat)) products)
     \<and> sorted_wrt (\<lambda>a b. rating b \<le> rating a)
           (filtered toLowerCase products query cat sortMode)"
proof -
  have m: "sortMode = js ''popular''"
    using assms by (simp add: sortOptions_def)
  show ?thesis
    unfolding m by (simp add: filtered_popular sorted_desc_sort_key)
qed

text \<open>
  On a catalog of the mug (rating 4.7) and the notebook (rating 4.9): with no search text
  and every category the notebook comes first; the search text \<open>NOTE\<close> in the category
  of both keeps the notebook alone.
\<close>

theorem filtered_sort_modes_witness:
  "js ''popular'' \<in> set sortOptions
   \<and> js ''popular'' \<noteq> js ''priceAsc'' \<and> js ''popular'' \<noteq> js ''priceDesc''
   \<and> filtered asciiLower [mug, notebook] [] (js ''all'') (js ''popular'') = [notebook, mug]
   \<and> filtered asciiLower [mug, notebook] (js ''NOTE'') (js ''Accessories'') (js ''popular'')
       = [notebook]"
proof -
  have h: "js ''popular'' \<in> set sortOptions"
    "js ''popular'' \<noteq> js ''priceAsc''" "js ''popular'' \<noteq> js ''priceDesc''"
    by (simp_all add: sortOptions_def js_def)
  have n: "asciiLower (name mug) = js ''mug''" "asciiLower (name notebook) = js ''notebook''"
    "asciiLower (js ''NOTE'') = js ''note''"
    by (simp_all add: mug_def notebook_def asciiLower_def js_def)
  have s: "\<not> sublist (js ''note'') (js ''mug'')" "sublist (js ''note'') (js ''notebook'')"
    by (simp_all add: js_def sublist_Cons_right)
  have c: "category mug = js ''Accessories''" "category notebook = js ''Accessories''"
    by (simp_all add: mug_def notebook_def)
  have q: "js ''NOTE'' \<noteq> []"
    by (simp add: js_def)
  show ?thesis
    using filtered_sort_modes [OF h, of asciiLower "[mug, notebook]" "[]" "js ''all''"]
      filtered_sort_modes [OF h, of asciiLower "[mug, notebook]" "js ''NOTE''" "js ''Accessories''"]
      h
    by (simp add: n s c q sample_ratings)
qed

section \<open>Catalog store\<close>

lemma takeWhile_first:
  assumes "\<exists>x \<in> set xs. P x"
  shows "length (takeWhile (\<lambda>x. \<not> P x) xs) < length xs
    \<and> P (xs ! length (takeWhile (\<lambda>x. \<not> P x) xs))
    \<and> (\<forall>j < length (takeWhile (\<lambda>x. \<not> P x) xs). \<not> P (xs ! j))"
  using assms
proof (induction xs)
  case Nil
  then show ?case by simp
next
  case (Cons a xs)
  show ?case
  proof (cases "P a")
    case True
    then show ?thesis by simp
  next
    case False
    with Cons.prems have "\<exists>x \<in> set xs. P x" by simp
    from Cons.IH [OF this] False show ?thesis
      by (auto simp: less_Suc_eq_0_disj)
  qed
qed

lemma findIndexFrom_char:
  "findIndexFrom P k xs =
     (if \<exists>x \<in> set xs. P x then int (k + length (takeWhile (\<lambda>x. \<not> P x) xs)) else - 1)"
  by (induction xs arbitrary: k) auto

lemma findIndex_found:
  assumes "\<exists>x \<in> set xs. P x"
  shows "findIndex P xs = int (length (takeWhile (\<lambda>x. \<not> P x) xs))"
  using assms by (simp add: findIndex_def findIndexFrom_char)

text \<open>
  Claim C6. When the identifier of \<open>p\<close> already occurs in the catalog, \<open>upsert(p)\<close> puts
  \<open>p\<close> at the position \<open>idx\<close> of the first product with that identifier: the result is
  the catalog with that one entry replaced, so its length is the same, \<open>p\<close> is at \<open>idx\<close>,
  and every other position holds the product it held.
\<close>

theorem upsertProduct_existing:
  assumes "\<exists>x \<in> set list. id' x = id' p"
  shows "\<exists>idx < length list.
           id' (list ! idx) = id' p
         \<and> (\<forall>j < idx. id' (list ! j) \<noteq> id' p)
         \<and> upsertProduct fresh p list = list[idx := p]
         \<and> length (upsertProduct fresh p list) = length list
         \<and> upsertProduct fresh p list ! idx = p
         \<and> (\<forall>j < length list. j \<noteq> idx \<longrightarrow> upsertProduct fresh p list ! j = list ! j)"
proof -
  define n where "n = length (takeWhile (\<lambda>x. id' x \<noteq> id' p) list)"
  have fi: "findIndex (\<lambda>x. id' x = id' p) list = int n"
    unfolding n_def using assms by (rule findIndex_found)
  have up: "upsertProduct fresh p list = list[n := p]"
    by (simp add: upsertProduct_def fi)
  from takeWhile_first [of list "\<lambda>x. id' x = id' p", OF assms]
  have lt: "n < length list" and at: "id' (list ! n) = id' p"
    and before: "\<forall>j < n. id' (list ! j) \<noteq> id' p"
    unfolding n_def by simp_all
  show ?thesis
    unfolding up using lt at before by (intro exI [of _ n]) simp
qed

text \<open>
  Saving the notebook with a new price replaces the second entry of a two-product
  catalog and leaves the mug in front of it.
\<close>

theorem upsertProduct_existing_witness:
  "(\<exists>x \<in> set [mug, notebook]. id' x = id' (notebook\<lparr>price := 120000\<rparr>))
   \<and> upsertProduct (js ''k3j9x0a'') (notebook\<lparr>price := 120000\<rparr>) [mug, notebook]
       = [mug, notebook\<lparr>price := 120000\<rparr>]"
proof -
  have h: "\<exists>x \<in> set [mug, notebook]. id' x = id' (notebook\<lparr>price := 120000\<rparr>)"
    by simp
  have ids: "id' mug \<noteq> id' notebook"
    by (simp add: mug_def notebook_def js_def)
  from upsertProduct_existing [OF h, of "js ''k3j9x0a''"]
  obtain idx where "idx < length [mug, notebook]"
    and "id' ([mug, notebook] ! idx) = id' (notebook\<lparr>price := 120000\<rparr>)"
    and up: "upsertProduct (js ''k3j9x0a'') (notebook\<lparr>price := 120000\<rparr>) [mug, notebook]
             = [mug, notebook][idx := notebook\<lparr>price := 120000\<rparr>]"
    by blast
  then have "idx = 1"
    using ids by (cases idx) simp_all
  then show ?thesis
    using h up by simp
qed

text \<open>
  Claim C7. When no product of the catalog has the identifier \<open>i\<close>, \<open>delete(i)\<close> returns
  the catalog as it was, element by element.
\<close>

theorem deleteProduct_absent:
  assumes "\<forall>p \<in> set list. id' p \<noteq> i"
  shows "deleteProduct i list = list"
  unfolding deleteProduct_def using assms by simp

theorem deleteProduct_absent_witness:
  "js ''p9'' \<notin> id' ` set [mug, notebook]
   \<and> deleteProduct (js ''p9'') [mug, notebook] = [mug, notebook]"
  using deleteProduct_absent [of "[mug, notebook]" "js ''p9''"]
  by (simp add: mug_def notebook_def js_def)

section \<open>Persistence adapter: the round trip\<close>

text \<open>
  Parsing the text that \<open>JSON_stringify\<close> writes for a well-formed value gives the value
  back, with enough fuel, and the fuel that \<open>JSON_parse\<close> takes is enough.
\<close>

subsection \<open>Digits\<close>

lemma showNat_small: "n < 10 \<Longrightarrow> showNat n = [0x30 + n]"
  by (subst showNat.simps) simp

lemma showNat_large: "\<not> n < 10 \<Longrightarrow> showNat n = showNat (n div 10) @ [0x30 + n mod 10]"
  by (subst showNat.simps) simp

lemma showNat_digits: "\<forall>c \<in> set (showNat n). isDigit c"
proof (induction n rule: showNat.induct)
  case (1 n)
  show ?case
  proof (cases "n < 10")
    case True
    then show ?thesis by (simp add: showNat_small isDigit_def)
  next
    case False
    moreover have "\<forall>c \<in> set (showNat (n div 10)). isDigit c"
      using 1 False by simp
    moreover have "n mod 10 < 10" by simp
    ultimately show ?thesis
      by (simp add: showNat_large isDigit_def)
  qed
qed

lemma natOfDigits_snoc: "natOfDigits (xs @ [c]) = 10 * natOfDigits xs + (c - 0x30)"
  by (simp add: natOfDigits_def)

lemma natOfDigits_showNat: "natOfDigits (showNat n) = n"
proof (induction n rule: showNat.induct)
  case (1 n)
  show ?case
  proof (cases "n < 10")
    case True
    then show ?thesis by (simp add: showNat_small natOfDigits_def)
  next
    case False
    have ih: "natOfDigits (showNat (n div 10)) = n div 10"
      using 1 False by simp
    show ?thesis
      using False by (simp add: showNat_large natOfDigits_snoc ih)
  qed
qed

lemma showNat_nonempty: "showNat n \<noteq> []"
  by (subst showNat.simps) simp

lemma hd_showNat: "0 < n \<Longrightarrow> hd (showNat n) \<noteq> 0x30"
proof (induction n rule: showNat.induct)
  case (1 n)
  show ?case
  proof (cases "n < 10")
    case True
    then show ?thesis using 1(2) by (simp add: showNat_small)
  next
    case False
    have "0 < n div 10" using False by simp
    then have "hd (showNat (n div 10)) \<noteq> 0x30"
      using 1(1) False by simp
    then show ?thesis
      using False showNat_nonempty [of "n div 10"] by (simp add: showNat_large)
  qed
qed

lemma natOfDigits_append:
  "natOfDigits (a @ b) = natOfDigits a * 10 ^ length b + natOfDigits b"
proof (induction b rule: rev_induct)
  case Nil
  show ?case by (simp add: natOfDigits_def)
next
  case (snoc c b)
  have "natOfDigits (a @ b @ [c]) = 10 * natOfDigits (a @ b) + (c - 0x30)"
    using natOfDigits_snoc [of "a @ b" c] by simp
  then show ?case
    by (simp add: snoc.IH natOfDigits_snoc algebra_simps)
qed

lemma natOfDigits_Nil: "natOfDigits [] = 0"
  by (simp add: natOfDigits_def)

lemma natOfDigits_leading_zero: "natOfDigits (0x30 # r) = natOfDigits r"
  by (simp add: natOfDigits_def)

lemma natOfDigits_leading_zeros: "natOfDigits (replicate z 0x30 @ r) = natOfDigits r"
  by (induction z) (simp_all add: natOfDigits_leading_zero)

lemma natOfDigits_zeros: "natOfDigits (replicate z 0x30) = 0"
  using natOfDigits_leading_zeros [of z "[]"] by (simp add: natOfDigits_Nil)

lemma span_digits:
  assumes "\<forall>c \<in> set ds. isDigit c" and "t = [] \<or> \<not> isDigit (hd t)"
  shows "takeWhile isDigit (ds @ t) = ds" and "dropWhile isDigit (ds @ t) = t"
proof -
  have t: "takeWhile isDigit t = []" and d: "dropWhile isDigit t = t"
    using assms(2) by (cases t; simp)+
  show "takeWhile isDigit (ds @ t) = ds"
    using assms(1) t by (simp add: takeWhile_append2)
  show "dropWhile isDigit (ds @ t) = t"
    using assms(1) d by (simp add: dropWhile_append2)
qed

lemma canonical_zero: "canonical 0 x = (0, 0)"
  by (subst canonical.simps) simp

lemma canonical_fixed: "0 < m \<Longrightarrow> m mod 10 \<noteq> 0 \<Longrightarrow> canonical m x = (m, x)"
  by (subst canonical.simps) simp

lemma canonical_zeros:
  assumes "0 < m" and "m mod 10 \<noteq> 0"
  shows "canonical (m * 10 ^ z) x = (m, x + int z)"
proof (induction z arbitrary: x)
  case 0
  show ?case using assms by (simp add: canonical_fixed)
next
  case (Suc z)
  have "canonical (m * 10 ^ Suc z) x = canonical (m * 10 ^ z) (x + 1)"
    using assms(1) by (subst canonical.simps) simp
  then show ?case
    by (simp add: Suc.IH)
qed

subsection \<open>Numbers\<close>

lemma parseFraction_none: "t = [] \<or> hd t \<noteq> 0x2E \<Longrightarrow> parseFraction t = Some ([], t)"
  by (auto simp: parseFraction_def)

lemma parseFraction_some:
  assumes "fp \<noteq> []" and "\<forall>c \<in> set fp. isDigit c" and "t = [] \<or> \<not> isDigit (hd t)"
  shows "parseFraction (0x2E # fp @ t) = Some (fp, t)"
  using assms span_digits [OF assms(2,3)] by (simp add: parseFraction_def)

lemma parseExponent_none:
  "t = [] \<or> (hd t \<noteq> 0x65 \<and> hd t \<noteq> 0x45) \<Longrightarrow> parseExponent t = Some (0, t)"
  by (auto simp: parseExponent_def)

lemma parseExponent_text:
  assumes "t = [] \<or> \<not> isDigit (hd t)"
  shows "parseExponent (exponentText e @ t) = Some (e, t)"
proof -
  have sp: "takeWhile isDigit (showNat k @ t) = showNat k"
    "dropWhile isDigit (showNat k @ t) = t" for k
    using span_digits [OF showNat_digits assms] by simp_all
  show ?thesis
    by (simp add: parseExponent_def exponentText_def Let_def sp showNat_nonempty
        natOfDigits_showNat)
qed

lemma parseUnsigned_parts:
  assumes "ip \<noteq> []" and "\<forall>c \<in> set ip. isDigit c" and "hd ip \<noteq> 0x30 \<or> length ip = 1"
    and "t = [] \<or> \<not> isDigit (hd t)"
    and "parseFraction t = Some (fp, t3)" and "parseExponent t3 = Some (e, t6)"
  shows "parseUnsigned (ip @ t) =
           Some (canonical (natOfDigits (ip @ fp)) (e - int (length fp)), t6)"
proof -
  have sp: "takeWhile isDigit (ip @ t) = ip" "dropWhile isDigit (ip @ t) = t"
    using span_digits [OF assms(2,4)] by simp_all
  have lead: "\<not> (hd ip = 0x30 \<and> 1 < length ip)"
    using assms(3) by auto
  show ?thesis
    unfolding parseUnsigned_def Let_def sp
    using assms(1) lead by (simp add: assms(5,6))
qed

lemma numberEnds_parts:
  assumes "numberEnds rest"
  shows "rest = [] \<or> \<not> isDigit (hd rest)"
    and "parseFraction rest = Some ([], rest)"
    and "parseExponent rest = Some (0, rest)"
proof -
  show "rest = [] \<or> \<not> isDigit (hd rest)"
    using assms by (auto simp: numberEnds_def)
  show "parseFraction rest = Some ([], rest)"
    using assms by (intro parseFraction_none) (auto simp: numberEnds_def)
  show "parseExponent rest = Some (0, rest)"
    using assms by (intro parseExponent_none) (auto simp: numberEnds_def)
qed

lemma exponentText_start: "\<not> isDigit (hd (exponentText e @ t))"
  by (simp add: exponentText_def isDigit_def)

lemma parseUnsigned_positiveText:
  assumes s: "0 < s" "s mod 10 \<noteq> 0" and rest: "numberEnds rest"
  shows "parseUnsigned (positiveText s x @ rest) = Some ((s, x), rest)"
proof -
  define ds where "ds = showNat s"
  define k where "k = int (length ds)"
  define n where "n = k + x"
  have dig: "\<forall>c \<in> set ds. isDigit c"
    unfolding ds_def by (rule showNat_digits)
  have ne: "ds \<noteq> []"
    unfolding ds_def by (rule showNat_nonempty)
  have k1: "1 \<le> k"
    using ne by (cases ds) (simp_all add: k_def)
  have hd0: "hd ds \<noteq> 0x30"
    unfolding ds_def using s(1) by (rule hd_showNat)
  have val: "natOfDigits ds = s"
    unfolding ds_def by (rule natOfDigits_showNat)
  note re = numberEnds_parts [OF rest]
  have pt: "positiveText s x =
     (if k \<le> n \<and> n \<le> 21 then ds @ replicate (nat (n - k)) 0x30
      else if 0 < n \<and> n \<le> 21 then take (nat n) ds @ 0x2E # drop (nat n) ds
      else if - 6 < n \<and> n \<le> 0 then 0x30 # 0x2E # replicate (nat (- n)) 0x30 @ ds
      else if k = 1 then ds @ exponentText (n - 1)
      else hd ds # 0x2E # tl ds @ exponentText (n - 1))"
    by (simp add: positiveText_def Let_def ds_def k_def n_def)
  have pt1: "positiveText s x = ds @ replicate (nat (n - k)) 0x30"
    if "k \<le> n \<and> n \<le> 21"
    by (simp only: pt that [THEN eqTrueI] if_True)
  have pt2: "positiveText s x = take (nat n) ds @ 0x2E # drop (nat n) ds"
    if "\<not> (k \<le> n \<and> n \<le> 21)" "0 < n \<and> n \<le> 21"
    by (simp only: pt that(1) [THEN eq_False [THEN iffD2]] that(2) [THEN eqTrueI]
        if_True if_False)
  have pt3: "positiveText s x = 0x30 # 0x2E # replicate (nat (- n)) 0x30 @ ds"
    if "\<not> (k \<le> n \<and> n \<le> 21)" "\<not> (0 < n \<and> n \<le> 21)" "- 6 < n \<and> n \<le> 0"
    by (simp only: pt that(1,2) [THEN eq_False [THEN iffD2]] that(3) [THEN eqTrueI]
        if_True if_False)
  have pt4: "positiveText s x = ds @ exponentText (n - 1)"
    if "\<not> (k \<le> n \<and> n \<le> 21)" "\<not> (0 < n \<and> n \<le> 21)" "\<not> (- 6 < n \<and> n \<le> 0)" "k = 1"
    by (simp only: pt that(1,2,3) [THEN eq_False [THEN iffD2]] that(4) [THEN eqTrueI]
        if_True if_False)
  have pt5: "positiveText s x = hd ds # 0x2E # tl ds @ exponentText (n - 1)"
    if "\<not> (k \<le> n \<and> n \<le> 21)" "\<not> (0 < n \<and> n \<le> 21)" "\<not> (- 6 < n \<and> n \<le> 0)" "k \<noteq> 1"
    by (simp only: pt that [THEN eq_False [THEN iffD2]] if_True if_False)
  consider (plain) "k \<le> n" "n \<le> 21"
    | (frac) "n < k" "0 < n" "n \<le> 21"
    | (small) "- 6 < n" "n \<le> 0"
    | (exp1) "21 < n \<or> n \<le> - 6" "k = 1"
    | (expk) "21 < n \<or> n \<le> - 6" "1 < k"
    using k1 by linarith
  then show ?thesis
  proof cases
    case plain
    let ?ip = "ds @ replicate (nat (n - k)) 0x30"
    have shape: "positiveText s x @ rest = ?ip @ rest"
      using pt1 plain by simp
    have "parseUnsigned (?ip @ rest) =
        Some (canonical (natOfDigits (?ip @ [])) (0 - int (length ([] :: nat list))), rest)"
    proof (rule parseUnsigned_parts)
      show "?ip \<noteq> []" using ne by simp
      show "\<forall>c \<in> set ?ip. isDigit c" using dig by (auto simp: isDigit_def)
      show "hd ?ip \<noteq> 0x30 \<or> length ?ip = 1" using ne hd0 by simp
    qed (rule re)+
    moreover have "natOfDigits ?ip = s * 10 ^ nat (n - k)"
      by (simp add: natOfDigits_append natOfDigits_zeros val)
    moreover have "int (nat (n - k)) = x"
      using plain by (simp add: n_def)
    ultimately show ?thesis
      using canonical_zeros [OF s, of "nat (n - k)" 0] by (simp add: shape)
  next
    case frac
    let ?ip = "take (nat n) ds" and ?fp = "drop (nat n) ds"
    have nk: "nat n < length ds" "0 < nat n"
      using frac by (simp_all add: k_def)
    have "\<not> (k \<le> n \<and> n \<le> 21)" "0 < n \<and> n \<le> 21"
      using frac by linarith+
    then have shape: "positiveText s x @ rest = ?ip @ (0x2E # ?fp @ rest)"
      using pt2 by simp
    have "parseUnsigned (?ip @ (0x2E # ?fp @ rest)) =
        Some (canonical (natOfDigits (?ip @ ?fp)) (0 - int (length ?fp)), rest)"
    proof (rule parseUnsigned_parts)
      show "?ip \<noteq> []" using nk ne by simp
      show "\<forall>c \<in> set ?ip. isDigit c" using dig by (auto dest: in_set_takeD)
      show "hd ?ip \<noteq> 0x30 \<or> length ?ip = 1" using nk hd0 by simp
      show "0x2E # ?fp @ rest = [] \<or> \<not> isDigit (hd (0x2E # ?fp @ rest))"
        by (simp add: isDigit_def)
      show "parseFraction (0x2E # ?fp @ rest) = Some (?fp, rest)"
      proof (rule parseFraction_some)
        show "?fp \<noteq> []" using nk by simp
        show "\<forall>c \<in> set ?fp. isDigit c" using dig by (auto dest: in_set_dropD)
      qed (rule re)
    qed (rule re)
    moreover have "0 - int (length ?fp) = x"
      using frac nk by (simp add: n_def k_def)
    ultimately show ?thesis
      using canonical_fixed [OF s, of x] by (simp add: shape val)
  next
    case small
    let ?fp = "replicate (nat (- n)) 0x30 @ ds"
    have "\<not> (k \<le> n \<and> n \<le> 21)" "\<not> (0 < n \<and> n \<le> 21)" "- 6 < n \<and> n \<le> 0"
      using small k1 by linarith+
    then have shape: "positiveText s x @ rest = [0x30] @ (0x2E # ?fp @ rest)"
      using pt3 by simp
    have "parseUnsigned ([0x30] @ (0x2E # ?fp @ rest)) =
        Some (canonical (natOfDigits ([0x30] @ ?fp)) (0 - int (length ?fp)), rest)"
    proof (rule parseUnsigned_parts)
      show "\<forall>c \<in> set [0x30]. isDigit c" by (simp add: isDigit_def)
      show "0x2E # ?fp @ rest = [] \<or> \<not> isDigit (hd (0x2E # ?fp @ rest))"
        by (simp add: isDigit_def)
      show "parseFraction (0x2E # ?fp @ rest) = Some (?fp, rest)"
      proof (rule parseFraction_some)
        show "?fp \<noteq> []" using ne by simp
        show "\<forall>c \<in> set ?fp. isDigit c" using dig by (auto simp: isDigit_def)
      qed (rule re)
    qed (simp_all add: re)
    moreover have "natOfDigits ([0x30] @ ?fp) = s"
      by (simp add: natOfDigits_leading_zero natOfDigits_leading_zeros val)
    moreover have "0 - int (length ?fp) = x"
      using small by (simp add: n_def k_def)
    ultimately show ?thesis
      using canonical_fixed [OF s, of x] by (simp add: shape)
  next
    case exp1
    have "\<not> (k \<le> n \<and> n \<le> 21)" "\<not> (0 < n \<and> n \<le> 21)" "\<not> (- 6 < n \<and> n \<le> 0)"
      using exp1 by linarith+
    then have shape: "positiveText s x @ rest = ds @ (exponentText (n - 1) @ rest)"
      using pt4 exp1(2) by simp
    have "parseUnsigned (ds @ (exponentText (n - 1) @ rest)) =
        Some (canonical (natOfDigits (ds @ [])) (n - 1 - int (length ([] :: nat list))), rest)"
    proof (rule parseUnsigned_parts)
      show "hd ds \<noteq> 0x30 \<or> length ds = 1" using hd0 by simp
      show "exponentText (n - 1) @ rest = [] \<or> \<not> isDigit (hd (exponentText (n - 1) @ rest))"
        by (simp add: exponentText_start)
      show "parseFraction (exponentText (n - 1) @ rest) = Some ([], exponentText (n - 1) @ rest)"
        by (rule parseFraction_none) (simp add: exponentText_def)
      show "parseExponent (exponentText (n - 1) @ rest) = Some (n - 1, rest)"
        by (rule parseExponent_text) (rule re)
    qed (rule ne dig)+
    moreover have "n - 1 = x"
      using exp1 by (simp add: n_def)
    ultimately show ?thesis
      using canonical_fixed [OF s, of x] by (simp add: shape val)
  next
    case expk
    have len: "1 < length ds" using expk by (simp add: k_def)
    have split: "ds = hd ds # tl ds" using ne by simp
    have tl_ne: "tl ds \<noteq> []"
      using len by (cases ds) auto
    have "\<not> (k \<le> n \<and> n \<le> 21)" "\<not> (0 < n \<and> n \<le> 21)" "\<not> (- 6 < n \<and> n \<le> 0)" "k \<noteq> 1"
      using expk by linarith+
    then have shape: "positiveText s x @ rest = [hd ds] @ (0x2E # tl ds @ (exponentText (n - 1) @ rest))"
      using pt5 by simp
    have "parseUnsigned ([hd ds] @ (0x2E # tl ds @ (exponentText (n - 1) @ rest))) =
        Some (canonical (natOfDigits ([hd ds] @ tl ds)) (n - 1 - int (length (tl ds))), rest)"
    proof (rule parseUnsigned_parts)
      show "\<forall>c \<in> set [hd ds]. isDigit c" using dig ne by simp
      show "0x2E # tl ds @ exponentText (n - 1) @ rest = []
          \<or> \<not> isDigit (hd (0x2E # tl ds @ exponentText (n - 1) @ rest))"
        by (simp add: isDigit_def)
      show "parseFraction (0x2E # tl ds @ exponentText (n - 1) @ rest)
          = Some (tl ds, exponentText (n - 1) @ rest)"
      proof (rule parseFraction_some)
        show "\<forall>c \<in> set (tl ds). isDigit c" using dig ne by (auto dest: list.set_sel(2))
        show "exponentText (n - 1) @ rest = [] \<or> \<not> isDigit (hd (exponentText (n - 1) @ rest))"
          by (simp add: exponentText_start)
      qed (rule tl_ne)
      show "parseExponent (exponentText (n - 1) @ rest) = Some (n - 1, rest)"
        by (rule parseExponent_text) (rule re)
    qed simp_all
    moreover have "[hd ds] @ tl ds = ds" using ne by simp
    moreover have "n - 1 - int (length (tl ds)) = x"
      using len by (simp add: n_def k_def)
    ultimately show ?thesis
      using canonical_fixed [OF s, of x] by (simp add: shape val)
  qed
qed

lemma positiveText_start: "\<exists>c r. positiveText s x = c # r \<and> isDigit c"
proof -
  obtain d ds where ds: "showNat s = d # ds"
    using showNat_nonempty [of s] by (cases "showNat s") auto
  then have d: "isDigit d"
    using showNat_digits [of s] by simp
  have tk: "take n (d # ds) @ t = d # take (n - 1) ds @ t" if "0 < n" for n and t :: "nat list"
    using that by (cases n) simp_all
  have z: "isDigit 0x30"
    by (simp add: isDigit_def)
  define n where "n = int (length (d # ds)) + x"
  have "positiveText s x =
     (if int (length (d # ds)) \<le> n \<and> n \<le> 21 then d # ds @ replicate (nat (n - int (length (d # ds)))) 0x30
      else if 0 < n \<and> n \<le> 21 then take (nat n) (d # ds) @ 0x2E # drop (nat n) (d # ds)
      else if - 6 < n \<and> n \<le> 0 then 0x30 # 0x2E # replicate (nat (- n)) 0x30 @ d # ds
      else if int (length (d # ds)) = 1 then d # ds @ exponentText (n - 1)
      else d # 0x2E # ds @ exponentText (n - 1))"
    by (simp add: positiveText_def Let_def ds n_def)
  moreover have "take (nat n) (d # ds) @ 0x2E # drop (nat n) (d # ds)
      = d # take (nat n - 1) ds @ 0x2E # drop (nat n) (d # ds)" if "0 < n"
    using that tk [of "nat n"] by simp
  ultimately show ?thesis
    using d z by (cases "0 < n") (simp_all del: length_Cons list.size)
qed

lemma parseNumber_numberText:
  assumes "wellFormed (JNum m x)" and "numberEnds rest"
  shows "parseNumber (numberText m x @ rest) = Some (JNum m x, rest)"
proof -
  consider "m = 0" "x = 0" | "0 < m" "m mod 10 \<noteq> 0" | "m < 0" "m mod 10 \<noteq> 0"
    using assms(1) by (cases m "0 :: int" rule: linorder_cases) auto
  then show ?thesis
  proof cases
    case 1
    have "parseUnsigned ([0x30] @ rest) =
        Some (canonical (natOfDigits ([0x30] @ [])) (0 - int (length ([] :: nat list))), rest)"
    proof (rule parseUnsigned_parts)
      show "\<forall>c \<in> set [0x30]. isDigit c" by (simp add: isDigit_def)
      show "rest = [] \<or> \<not> isDigit (hd rest)" by (rule numberEnds_parts [OF assms(2)])
      show "parseFraction rest = Some ([], rest)" by (rule numberEnds_parts [OF assms(2)])
      show "parseExponent rest = Some (0, rest)" by (rule numberEnds_parts [OF assms(2)])
    qed simp_all
    then show ?thesis
      using 1 by (simp add: parseNumber_def numberText_def natOfDigits_def canonical_zero)
  next
    case 2
    have "nat m mod 10 = nat (m mod 10)"
      using 2(1) by (simp add: nat_mod_distrib)
    then have s: "0 < nat m" "nat m mod 10 \<noteq> 0"
      using 2 by simp_all
    obtain c r where cr: "positiveText (nat m) x = c # r" and c: "isDigit c"
      using positiveText_start by blast
    have "c \<noteq> 0x2D" using c by (auto simp: isDigit_def)
    then show ?thesis
      using 2 parseUnsigned_positiveText [OF s assms(2), of x]
      by (simp add: parseNumber_def numberText_def cr)
  next
    case 3
    have "(- m) mod 10 \<noteq> 0"
      using 3(2) by presburger
    moreover have "nat (- m) mod 10 = nat ((- m) mod 10)"
      using 3(1) by (simp add: nat_mod_distrib)
    ultimately have s: "0 < nat (- m)" "nat (- m) mod 10 \<noteq> 0"
      using 3(1) by simp_all
    show ?thesis
      using 3 parseUnsigned_positiveText [OF s assms(2), of x]
      by (simp add: parseNumber_def numberText_def)
  qed
qed

subsection \<open>Strings\<close>

lemma hexVal_hexDigit: "d < 16 \<Longrightarrow> hexVal (hexDigit d) = Some d"
  by (simp add: hexVal_def hexDigit_def)

lemma hex_digits_sum:
  fixes c :: nat
  assumes "c < 65536"
  shows "4096 * (c div 4096 mod 16) + 256 * (c div 256 mod 16) + 16 * (c div 16 mod 16) + c mod 16 = c"
proof -
  have a: "c div 4096 mod 16 = c div 4096"
    using assms by simp
  have b: "c div 256 = 16 * (c div 4096) + c div 256 mod 16"
    using div_mult2_eq [of c 256 16] by simp
  have d: "c div 16 = 16 * (c div 256) + c div 16 mod 16"
    using div_mult2_eq [of c 16 16] by simp
  have e: "c = 16 * (c div 16) + c mod 16"
    by simp
  show ?thesis
    using a b d e by linarith
qed

lemma hex4_unicodeEscape:
  assumes "c < 65536"
  shows "hex4 (hexDigit (c div 4096 mod 16)) (hexDigit (c div 256 mod 16))
           (hexDigit (c div 16 mod 16)) (hexDigit (c mod 16)) = Some c"
  unfolding hex4_def by (simp add: hexVal_hexDigit hex_digits_sum [OF assms])

lemma parseChars_plain:
  assumes "c \<noteq> 0x22" "c \<noteq> 0x5C" "\<not> c < 0x20"
  shows "parseChars (c # t) = consTo c (parseChars t)"
  using assms by simp

lemma parseChars_short:
  assumes "unescape e = Some c" "e \<noteq> 0x75"
  shows "parseChars (0x5C # e # t) = consTo c (parseChars t)"
  using assms by simp

lemma parseChars_unicode:
  assumes "c < 65536"
  shows "parseChars (unicodeEscape c @ t) = consTo c (parseChars t)"
  using hex4_unicodeEscape [OF assms] by (simp add: unicodeEscape_def)

lemma parseChars_escapeUnit: "parseChars (escapeUnit c @ t) = consTo c (parseChars t)"
proof -
  consider "c = 0x22" | "c = 0x5C" | "c = 0x08" | "c = 0x0C" | "c = 0x0A" | "c = 0x0D" | "c = 0x09"
    | (esc) "c \<notin> {0x22, 0x5C, 0x08, 0x0C, 0x0A, 0x0D, 0x09}"
        "c < 0x20 \<or> isHighSurrogate c \<or> isLowSurrogate c"
    | (raw) "c \<notin> {0x22, 0x5C, 0x08, 0x0C, 0x0A, 0x0D, 0x09}"
        "\<not> (c < 0x20 \<or> isHighSurrogate c \<or> isLowSurrogate c)"
    by blast
  then show ?thesis
  proof cases
    case esc
    then have e: "escapeUnit c = unicodeEscape c"
      by (simp add: escapeUnit_def)
    have "c < 65536"
      using esc(2) by (auto simp: isHighSurrogate_def isLowSurrogate_def)
    then show ?thesis
      unfolding e by (rule parseChars_unicode)
  next
    case raw
    then have e: "escapeUnit c = [c]"
      by (simp add: escapeUnit_def)
    show ?thesis
      unfolding e using raw by (simp add: parseChars_plain)
  qed (simp_all add: escapeUnit_def unescape_def)
qed

lemma parseChars_surrogate:
  assumes "isHighSurrogate c \<or> isLowSurrogate c"
  shows "parseChars (c # t) = consTo c (parseChars t)"
  using assms by (intro parseChars_plain) (auto simp: isHighSurrogate_def isLowSurrogate_def)

lemma parseChars_body: "parseChars (quoteUnits s @ 0x22 # rest) = Some (s, rest)"
proof (induction s rule: quoteUnits.induct)
  case 1
  show ?case by simp
next
  case (2 c)
  have "parseChars (quoteUnits [c] @ 0x22 # rest) = consTo c (parseChars (0x22 # rest))"
    by (simp only: quoteUnits.simps parseChars_escapeUnit)
  then show ?case
    by (simp add: consTo_def)
next
  case (3 c d r)
  show ?case
  proof (cases "isHighSurrogate c \<and> isLowSurrogate d")
    case True
    then have "quoteUnits (c # d # r) = c # d # quoteUnits r"
      by simp
    then have "parseChars (quoteUnits (c # d # r) @ 0x22 # rest)
        = consTo c (consTo d (parseChars (quoteUnits r @ 0x22 # rest)))"
      using True by (simp add: parseChars_surrogate del: parseChars.simps)
    then show ?thesis
      using 3(1) [OF True] by (simp add: consTo_def)
  next
    case False
    then have "quoteUnits (c # d # r) = escapeUnit c @ quoteUnits (d # r)"
      by auto
    then have "parseChars (quoteUnits (c # d # r) @ 0x22 # rest)
        = parseChars (escapeUnit c @ (quoteUnits (d # r) @ 0x22 # rest))"
      by (simp only: append_assoc)
    also have "\<dots> = consTo c (parseChars (quoteUnits (d # r) @ 0x22 # rest))"
      by (rule parseChars_escapeUnit)
    finally show ?thesis
      using 3(2) [OF False] by (simp add: consTo_def)
  qed
qed

lemma parseChars_quoteStr: "parseChars (tl (quoteStr s) @ rest) = Some (s, rest)"
  using parseChars_body [of s rest] by (simp add: quoteStr_def)

subsection \<open>Objects\<close>

lemma keysOrdered_butlast: "keysOrdered (ks @ [k]) \<Longrightarrow> keysOrdered ks"
  by (induction ks rule: keysOrdered.induct) simp_all

lemma keysOrdered_last_index:
  "keysOrdered (ks @ [k]) \<Longrightarrow> isArrayIndex k \<Longrightarrow>
     \<forall>k' \<in> set ks. isArrayIndex k' \<and> natOfDigits k' < natOfDigits k"
proof (induction ks rule: keysOrdered.induct)
  case 1
  show ?case by simp
next
  case (2 k0)
  then show ?case by simp
next
  case (3 k0 k1 r)
  from 3(2) have ord: "\<not> isArrayIndex k1 \<or> (isArrayIndex k0 \<and> natOfDigits k0 < natOfDigits k1)"
    and rest: "keysOrdered ((k1 # r) @ [k])"
    by simp_all
  have ih: "\<forall>k' \<in> set (k1 # r). isArrayIndex k' \<and> natOfDigits k' < natOfDigits k"
    using 3(1) [OF rest 3(3)] .
  then have "isArrayIndex k1" "natOfDigits k1 < natOfDigits k"
    by simp_all
  with ord have "isArrayIndex k0 \<and> natOfDigits k0 < natOfDigits k"
    by linarith
  with ih show ?case
    by simp
qed

lemma insertIndex_last:
  "\<forall>kv \<in> set kvs. isArrayIndex (fst kv) \<and> natOfDigits (fst kv) < natOfDigits k \<Longrightarrow>
     insertIndex k v kvs = kvs @ [(k, v)]"
  by (induction kvs) simp_all

lemma setMember_last:
  assumes "distinct (map fst (kvs @ [(k, v)]))" and "keysOrdered (map fst (kvs @ [(k, v)]))"
  shows "setMember k v kvs = kvs @ [(k, v)]"
proof -
  have new: "k \<notin> set (map fst kvs)"
    using assms(1) by simp
  show ?thesis
  proof (cases "isArrayIndex k")
    case True
    have "\<forall>k' \<in> set (map fst kvs). isArrayIndex k' \<and> natOfDigits k' < natOfDigits k"
      using assms(2) True by (intro keysOrdered_last_index) simp_all
    then have "insertIndex k v kvs = kvs @ [(k, v)]"
      by (intro insertIndex_last) simp
    then show ?thesis
      using new True by (simp add: setMember_def)
  next
    case False
    then show ?thesis
      using new by (simp add: setMember_def)
  qed
qed

lemma objectOf_members:
  "distinct (map fst kvs) \<Longrightarrow> keysOrdered (map fst kvs) \<Longrightarrow> objectOf kvs = kvs"
proof (induction kvs rule: rev_induct)
  case Nil
  show ?case by (simp add: objectOf_def)
next
  case (snoc kv kvs)
  obtain k v where kv: "kv = (k, v)"
    by (cases kv)
  have "objectOf kvs = kvs"
    using snoc keysOrdered_butlast [of "map fst kvs" "fst kv"] by simp
  then have "objectOf (kvs @ [kv]) = setMember k v kvs"
    by (simp add: objectOf_def kv)
  also have "\<dots> = kvs @ [(k, v)]"
    using snoc(2,3) unfolding kv by (rule setMember_last)
  finally show ?case
    by (simp add: kv)
qed

subsection \<open>Values\<close>

lemma js_literals:
  "js ''null'' = [0x6E, 0x75, 0x6C, 0x6C]"
  "js ''true'' = [0x74, 0x72, 0x75, 0x65]"
  "js ''false'' = [0x66, 0x61, 0x6C, 0x73, 0x65]"
  "js ''ull'' = [0x75, 0x6C, 0x6C]"
  "js ''rue'' = [0x72, 0x75, 0x65]"
  "js ''alse'' = [0x61, 0x6C, 0x73, 0x65]"
  by (simp_all add: js_def)

lemma valueEnds_skipWs: "valueEnds rest \<Longrightarrow> skipWs rest = rest"
  by (cases rest) (auto simp: valueEnds_def skipWs_def jsonWs_def)

lemma valueEnds_numberEnds: "valueEnds rest \<Longrightarrow> numberEnds rest"
  by (auto simp: valueEnds_def numberEnds_def isDigit_def)

lemma valueEnds_simps:
  "valueEnds []" "valueEnds (0x2C # s)" "valueEnds (0x5D # s)" "valueEnds (0x7D # s)"
  by (simp_all add: valueEnds_def)

lemma parseValue_null: "parseValue (Suc n) (js ''null'' @ rest) = Some (JNull, rest)"
  by (simp add: js_literals skipWs_def jsonWs_def)

lemma parseValue_true: "parseValue (Suc n) (js ''true'' @ rest) = Some (JBool True, rest)"
  by (simp add: js_literals skipWs_def jsonWs_def)

lemma parseValue_false: "parseValue (Suc n) (js ''false'' @ rest) = Some (JBool False, rest)"
  by (simp add: js_literals skipWs_def jsonWs_def)

lemma parseValue_string: "parseValue (Suc n) (quoteStr s @ rest) = Some (JStr s, rest)"
proof -
  have "parseValue (Suc n) (quoteStr s @ rest)
      = map_option (apfst JStr) (parseChars (quoteUnits s @ 0x22 # rest))"
    by (simp add: quoteStr_def skipWs_def jsonWs_def)
  then show ?thesis
    by (simp add: parseChars_body)
qed

lemma number_start:
  assumes "c = 0x2D \<or> isDigit c"
  shows "\<not> jsonWs c" "c \<noteq> 0x6E" "c \<noteq> 0x74" "c \<noteq> 0x66" "c \<noteq> 0x22"
    "c \<noteq> 0x5B" "c \<noteq> 0x7B" "c \<noteq> 0x5D" "c \<noteq> 0x7D"
  using assms by (auto simp: jsonWs_def isDigit_def)

lemma parseValue_number_start:
  assumes "c = 0x2D \<or> isDigit c"
  shows "parseValue (Suc n) (c # r) = parseNumber (c # r)"
  using number_start [OF assms] by (simp add: skipWs_def)

lemma numberText_start: "\<exists>c r. numberText m x = c # r \<and> (c = 0x2D \<or> isDigit c)"
proof -
  obtain c r where "positiveText (nat m) x = c # r" "isDigit c"
    using positiveText_start by blast
  then show ?thesis
    by (simp add: numberText_def isDigit_def)
qed

lemma parseValue_number:
  assumes "wellFormed (JNum m x)" and "valueEnds rest"
  shows "parseValue (Suc n) (numberText m x @ rest) = Some (JNum m x, rest)"
proof -
  obtain c r where cr: "numberText m x = c # r" and c: "c = 0x2D \<or> isDigit c"
    using numberText_start by blast
  have "parseValue (Suc n) (numberText m x @ rest) = parseNumber (numberText m x @ rest)"
    unfolding cr using parseValue_number_start [OF c, of n "r @ rest"] by simp
  then show ?thesis
    using parseNumber_numberText [OF assms(1) valueEnds_numberEnds [OF assms(2)]] by simp
qed

lemma stringify_start:
  "\<exists>c r. JSON_stringify v = c # r \<and> \<not> jsonWs c \<and> c \<noteq> 0x5D \<and> c \<noteq> 0x7D"
proof (cases v)
  case (JNum m x)
  obtain c r where cr: "numberText m x = c # r" and c: "c = 0x2D \<or> isDigit c"
    using numberText_start by blast
  show ?thesis
    using number_start [OF c] cr JNum by simp
qed (simp_all add: jsonWs_def quoteStr_def js_literals)

lemma parseValue_array_empty: "parseValue (Suc n) (0x5B # 0x5D # rest) = Some (JArr [], rest)"
  by (simp add: skipWs_def jsonWs_def)

lemma parseValue_object_empty: "parseValue (Suc n) (0x7B # 0x7D # rest) = Some (JObj [], rest)"
  by (simp add: skipWs_def jsonWs_def)

lemma parseValue_array:
  assumes "\<not> jsonWs d" "d \<noteq> 0x5D"
  shows "parseValue (Suc n) (0x5B # d # r) = map_option (apfst JArr) (parseElements n (d # r))"
  using assms by (simp add: skipWs_def jsonWs_def)

lemma parseValue_object:
  "parseValue (Suc n) (0x7B # 0x22 # r)
     = map_option (apfst (\<lambda>raw. JObj (objectOf raw))) (parseMembers n (0x22 # r))"
  by (simp add: skipWs_def jsonWs_def)

lemma parseElements_step:
  assumes "parseValue n s = Some (v, r)" "valueEnds r"
  shows "parseElements (Suc n) s =
     (case r of
        [] \<Rightarrow> None
      | c # r' \<Rightarrow>
          if c = 0x2C then map_option (apfst ((#) v)) (parseElements n r')
          else if c = 0x5D then Some ([v], r')
          else None)"
  using assms by (simp add: valueEnds_skipWs)

lemma parseMembers_step:
  assumes "parseValue n s = Some (v, r)" "valueEnds r"
  shows "parseMembers (Suc n) (quoteStr k @ 0x3A # s) =
     (case r of
        [] \<Rightarrow> None
      | c # r' \<Rightarrow>
          if c = 0x2C then map_option (apfst ((#) (k, v))) (parseMembers n r')
          else if c = 0x7D then Some ([(k, v)], r')
          else None)"
proof -
  have q: "quoteStr k @ 0x3A # s = 0x22 # (tl (quoteStr k) @ 0x3A # s)"
    by (simp add: quoteStr_def)
  have ws1: "skipWs (0x22 # (tl (quoteStr k) @ 0x3A # s)) = 0x22 # (tl (quoteStr k) @ 0x3A # s)"
    by (simp add: skipWs_def jsonWs_def)
  have ws2: "skipWs (0x3A # s) = 0x3A # s"
    by (simp add: skipWs_def jsonWs_def)
  show ?thesis
    unfolding q
    by (simp only: parseMembers.simps ws1 parseChars_quoteStr ws2 assms valueEnds_skipWs [OF assms(2)]
        list.case option.case prod.case if_False if_True simp_thms)
qed

declare parseValue.simps [simp del] parseElements.simps [simp del] parseMembers.simps [simp del]

lemma parseElements_roundtrip:
  assumes "\<And>x fuel rest. x \<in> set xs \<Longrightarrow> fuelFor x \<le> fuel \<Longrightarrow> valueEnds rest
             \<Longrightarrow> parseValue fuel (JSON_stringify x @ rest) = Some (x, rest)"
    and "xs \<noteq> []"
    and "sum_list (map Suc (map fuelFor xs)) \<le> n"
  shows "parseElements n (commaSep (map JSON_stringify xs) @ 0x5D # rest) = Some (xs, rest)"
  using assms
proof (induction xs arbitrary: n)
  case Nil
  then show ?case by simp
next
  case (Cons x xs)
  from Cons.prems(3) obtain m where n: "n = Suc m"
    and m: "fuelFor x + sum_list (map Suc (map fuelFor xs)) \<le> m"
    by (cases n) simp_all
  have mx: "fuelFor x \<le> m" using m by simp
  show ?case
  proof (cases xs)
    case Nil
    have pv: "parseValue m (JSON_stringify x @ 0x5D # rest) = Some (x, 0x5D # rest)"
      using Cons.prems(1) [of x m "0x5D # rest"] mx by (simp add: valueEnds_simps)
    show ?thesis
      unfolding n Nil using parseElements_step [OF pv] by (simp add: valueEnds_simps)
  next
    case (Cons y ys)
    let ?tail = "commaSep (map JSON_stringify xs) @ 0x5D # rest"
    have shape: "commaSep (map JSON_stringify (x # xs)) @ 0x5D # rest
        = JSON_stringify x @ 0x2C # ?tail"
      by (simp add: Cons)
    have pv: "parseValue m (JSON_stringify x @ 0x2C # ?tail) = Some (x, 0x2C # ?tail)"
      using Cons.prems(1) [of x m "0x2C # ?tail"] mx by (simp add: valueEnds_simps)
    have ih: "parseElements m ?tail = Some (xs, rest)"
    proof (rule Cons.IH)
      show "xs \<noteq> []" by (simp add: Cons)
      show "sum_list (map Suc (map fuelFor xs)) \<le> m" using m by simp
      show "\<And>x' fuel rest. x' \<in> set xs \<Longrightarrow> fuelFor x' \<le> fuel \<Longrightarrow> valueEnds rest
          \<Longrightarrow> parseValue fuel (JSON_stringify x' @ rest) = Some (x', rest)"
        using Cons.prems(1) by simp
    qed
    show ?thesis
      unfolding n shape using parseElements_step [OF pv] by (simp add: valueEnds_simps ih)
  qed
qed

lemma parseMembers_roundtrip:
  assumes "\<And>k x fuel rest. (k, x) \<in> set kvs \<Longrightarrow> fuelFor x \<le> fuel \<Longrightarrow> valueEnds rest
             \<Longrightarrow> parseValue fuel (JSON_stringify x @ rest) = Some (x, rest)"
    and "kvs \<noteq> []"
    and "sum_list (map (\<lambda>kv. Suc (fuelFor (snd kv))) kvs) \<le> n"
  shows "parseMembers n
           (commaSep (map (\<lambda>kv. quoteStr (fst kv) @ 0x3A # JSON_stringify (snd kv)) kvs)
              @ 0x7D # rest)
         = Some (kvs, rest)"
  using assms
proof (induction kvs arbitrary: n)
  case Nil
  then show ?case by simp
next
  case (Cons kv kvs)
  obtain k x where kv: "kv = (k, x)" by (cases kv)
  from Cons.prems(3) obtain m where n: "n = Suc m"
    and m: "fuelFor x + sum_list (map (\<lambda>kv. Suc (fuelFor (snd kv))) kvs) \<le> m"
    by (cases n) (simp_all add: kv)
  have mx: "fuelFor x \<le> m" using m by simp
  show ?case
  proof (cases kvs)
    case Nil
    have pv: "parseValue m (JSON_stringify x @ 0x7D # rest) = Some (x, 0x7D # rest)"
      using Cons.prems(1) [of k x m "0x7D # rest"] mx by (simp add: valueEnds_simps kv)
    show ?thesis
      unfolding kv n Nil using parseMembers_step [OF pv, of k] by (simp add: valueEnds_simps)
  next
    case (Cons kv' kvs')
    let ?tail = "commaSep (map (\<lambda>kv. quoteStr (fst kv) @ 0x3A # JSON_stringify (snd kv)) kvs)
                   @ 0x7D # rest"
    have shape: "commaSep (map (\<lambda>kv. quoteStr (fst kv) @ 0x3A # JSON_stringify (snd kv))
                  ((k, x) # kvs)) @ 0x7D # rest
        = quoteStr k @ 0x3A # (JSON_stringify x @ 0x2C # ?tail)"
      by (simp add: Cons)
    have pv: "parseValue m (JSON_stringify x @ 0x2C # ?tail) = Some (x, 0x2C # ?tail)"
      using Cons.prems(1) [of k x m "0x2C # ?tail"] mx by (simp add: valueEnds_simps kv)
    have ih: "parseMembers m ?tail = Some (kvs, rest)"
    proof (rule Cons.IH)
      show "kvs \<noteq> []" by (simp add: Cons)
      show "sum_list (map (\<lambda>kv. Suc (fuelFor (snd kv))) kvs) \<le> m" using m by simp
      show "parseValue fuel (JSON_stringify x' @ rest) = Some (x', rest)"
        if "(k, x') \<in> set kvs" "fuelFor x' \<le> fuel" "valueEnds rest" for k x' fuel rest
        using Cons.prems(1) [of k x' fuel rest] that by simp
    qed
    show ?thesis
      unfolding kv n shape using parseMembers_step [OF pv, of k] by (simp add: valueEnds_simps ih)
  qed
qed

lemma parseValue_roundtrip:
  "fuelFor v \<le> fuel \<Longrightarrow> wellFormed v \<Longrightarrow> valueEnds rest
     \<Longrightarrow> parseValue fuel (JSON_stringify v @ rest) = Some (v, rest)"
proof (induction v arbitrary: fuel rest)
  case JNull
  then obtain n where "fuel = Suc n" by (cases fuel) simp_all
  then show ?case using parseValue_null [of n rest] by simp
next
  case (JBool b)
  then obtain n where "fuel = Suc n" by (cases fuel) simp_all
  then show ?case
    using parseValue_true [of n rest] parseValue_false [of n rest] by simp
next
  case (JNum m x)
  then obtain n where "fuel = Suc n" by (cases fuel) simp_all
  then show ?case using parseValue_number [OF JNum.prems(2,3), of n] by simp
next
  case (JStr s)
  then obtain n where "fuel = Suc n" by (cases fuel) simp_all
  then show ?case using parseValue_string [of n s rest] by simp
next
  case (JArr xs)
  from JArr.prems(1) obtain n where fuel: "fuel = Suc n"
    and n: "sum_list (map Suc (map fuelFor xs)) \<le> n"
    by (cases fuel) simp_all
  have wf: "\<And>x. x \<in> set xs \<Longrightarrow> wellFormed x"
    using JArr.prems(2) by (simp add: list_all_iff)
  show ?case
  proof (cases xs)
    case Nil
    then show ?thesis using parseValue_array_empty [of n rest] by (simp add: fuel)
  next
    case (Cons x xs')
    obtain c r where cr: "JSON_stringify x = c # r" and c: "\<not> jsonWs c" "c \<noteq> 0x5D"
      using stringify_start [of x] by blast
    let ?body = "commaSep (map JSON_stringify xs) @ 0x5D # rest"
    have "\<exists>r'. ?body = c # r'"
      unfolding Cons by (cases xs') (simp_all add: cr)
    then obtain r' where body: "?body = c # r'" ..
    have el: "parseElements n ?body = Some (xs, rest)"
    proof (rule parseElements_roundtrip)
      show "xs \<noteq> []" by (simp add: Cons)
      show "sum_list (map Suc (map fuelFor xs)) \<le> n" by (rule n)
      show "\<And>x fuel rest. x \<in> set xs \<Longrightarrow> fuelFor x \<le> fuel \<Longrightarrow> valueEnds rest
          \<Longrightarrow> parseValue fuel (JSON_stringify x @ rest) = Some (x, rest)"
        using JArr.IH wf by blast
    qed
    have "parseValue (Suc n) (0x5B # ?body) = map_option (apfst JArr) (parseElements n ?body)"
      unfolding body using c by (rule parseValue_array)
    then show ?thesis
      by (simp add: fuel el)
  qed
next
  case (JObj kvs)
  from JObj.prems(1) obtain n where fuel: "fuel = Suc n"
    and n: "sum_list (map (\<lambda>kv. Suc (fuelFor (snd kv))) kvs) \<le> n"
    by (cases fuel) (simp_all add: comp_def)
  have wf: "\<And>k x. (k, x) \<in> set kvs \<Longrightarrow> wellFormed x"
    using JObj.prems(2) by (force simp: list_all_iff)
  have obj: "objectOf kvs = kvs"
    using JObj.prems(2) by (intro objectOf_members) simp_all
  show ?case
  proof (cases kvs)
    case Nil
    then show ?thesis using parseValue_object_empty [of n rest] by (simp add: fuel)
  next
    case (Cons kv kvs')
    let ?body = "commaSep (map (\<lambda>kv. quoteStr (fst kv) @ 0x3A # JSON_stringify (snd kv)) kvs)
                   @ 0x7D # rest"
    have "\<exists>r'. ?body = 0x22 # r'"
      unfolding Cons by (cases kvs') (simp_all add: quoteStr_def)
    then obtain r' where body: "?body = 0x22 # r'" ..
    have el: "parseMembers n ?body = Some (kvs, rest)"
    proof (rule parseMembers_roundtrip)
      show "kvs \<noteq> []" by (simp add: Cons)
      show "sum_list (map (\<lambda>kv. Suc (fuelFor (snd kv))) kvs) \<le> n" by (rule n)
      show "parseValue fuel (JSON_stringify x @ rest) = Some (x, rest)"
        if "(k, x) \<in> set kvs" "fuelFor x \<le> fuel" "valueEnds rest" for k x fuel rest
      proof (rule JObj.IH)
        show "(k, x) \<in> set kvs" by (rule that)
        show "x \<in> Basic_BNFs.snds (k, x)" by simp
        show "wellFormed x" using that(1) by (rule wf)
      qed (rule that)+
    qed
    have "parseValue (Suc n) (0x7B # ?body)
        = map_option (apfst (\<lambda>raw. JObj (objectOf raw))) (parseMembers n ?body)"
      unfolding body by (rule parseValue_object)
    then show ?thesis
      by (simp add: fuel el comp_def obj)
  qed
qed

subsection \<open>The fuel is enough\<close>

lemma length_commaSep:
  "ss \<noteq> [] \<Longrightarrow> Suc (length (commaSep ss)) = sum_list (map (\<lambda>s. Suc (length s)) ss)"
  by (induction ss rule: commaSep.induct) simp_all

lemma numberText_nonempty: "numberText m x \<noteq> []"
  using numberText_start [of m x] by auto

lemma fuel_le_length: "fuelFor v \<le> length (JSON_stringify v)"
proof (induction v)
  case (JNum m x)
  show ?case using numberText_nonempty [of m x] by (cases "numberText m x") simp_all
next
  case (JStr s)
  show ?case by (simp add: quoteStr_def)
next
  case (JArr xs)
  show ?case
  proof (cases "xs = []")
    case True
    then show ?thesis by simp
  next
    case False
    have "sum_list (map Suc (map fuelFor xs))
        \<le> sum_list (map (\<lambda>s. Suc (length s)) (map JSON_stringify xs))"
      unfolding map_map comp_def using JArr.IH by (intro sum_list_mono) simp
    also have "\<dots> = Suc (length (commaSep (map JSON_stringify xs)))"
      using False by (simp add: length_commaSep)
    finally show ?thesis by simp
  qed
next
  case (JObj kvs)
  let ?f = "\<lambda>kv. quoteStr (fst kv) @ 0x3A # JSON_stringify (snd kv)"
  show ?case
  proof (cases "kvs = []")
    case True
    then show ?thesis by simp
  next
    case False
    have "sum_list (map (\<lambda>kv. Suc (fuelFor (snd kv))) kvs)
        \<le> sum_list (map (\<lambda>kv. Suc (length (?f kv))) kvs)"
    proof (intro sum_list_mono)
      fix kv assume mem: "kv \<in> set kvs"
      obtain k x where kv: "kv = (k, x)" by (cases kv)
      have "x \<in> Basic_BNFs.snds kv" by (simp add: kv)
      then have "fuelFor (snd kv) \<le> length (JSON_stringify (snd kv))"
        using JObj.IH [OF mem] by (simp add: kv)
      then show "Suc (fuelFor (snd kv)) \<le> Suc (length (?f kv))" by simp
    qed
    also have "\<dots> = sum_list (map (\<lambda>s. Suc (length s)) (map ?f kvs))"
      by (simp add: comp_def)
    also have "\<dots> = Suc (length (commaSep (map ?f kvs)))"
      using False by (simp add: length_commaSep)
    finally show ?thesis by (simp add: comp_def)
  qed
qed (simp_all add: js_def)

lemma JSON_roundtrip: "wellFormed v \<Longrightarrow> JSON_parse (JSON_stringify v) = Inr v"
proof -
  assume wf: "wellFormed v"
  have "fuelFor v \<le> Suc (length (JSON_stringify v))"
    using fuel_le_length [of v] by simp
  then have "parseValue (Suc (length (JSON_stringify v))) (JSON_stringify v @ []) = Some (v, [])"
    using wf by (rule parseValue_roundtrip) (simp add: valueEnds_def)
  then show ?thesis
    by (simp add: JSON_parse_def skipWs_def)
qed

subsection \<open>Saving and loading\<close>

lemma load_save:
  "wellFormed v \<Longrightarrow> load k fallback (save k v st) = (if v = JNull then fallback else v)"
  by (simp add: load_def loadTry_def save_def setItem_def getItem_def parseArg_def JSON_roundtrip)

text \<open>Two texts that can be found in the storage, and two numbers of the catalog as they are written.\<close>

lemma parse_null_text: "JSON_parse (js ''null'') = Inr JNull"
  using JSON_roundtrip [of JNull] by simp

lemma parse_corrupt_text: "JSON_parse (js ''[1,2'') = Inl SyntaxError"
  by code_simp

lemma rating_text: "JSON_stringify (JNum 48 (- 1)) = js ''4.8''"
  by code_simp

lemma price_text: "JSON_stringify (JNum 169 3) = js ''169000''"
  by code_simp

lemma sampleCatalog_wellFormed: "wellFormed sampleCatalog"
  by (simp add: sampleCatalog_def js_def isArrayIndex_def isDigit_def)

text \<open>
  Claim C8, as amended. Saving a JSON value under a key and loading that key returns the
  saved value for every value other than \<open>null\<close>, whatever the fallback and the other
  contents of the storage: numbers with a fraction or an exponent, strings of any code
  units, arrays and objects, nested to any depth. After saving \<open>null\<close>, loading returns
  the fallback.
\<close>

theorem save_load_roundtrip:
  assumes "wellFormed v"
  shows "(v \<noteq> JNull \<longrightarrow> load k fallback (save k v st) = v)
   \<and> load k fallback (save k JNull st) = fallback"
  using assms load_save [of JNull k fallback st] by (simp add: load_save)

text \<open>
  The first product of the default catalog, with its accented name, its price 169000 and
  its rating 4.8, saved under \<open>vk_products\<close> and loaded again.
\<close>

theorem save_load_roundtrip_witness:
  "wellFormed sampleCatalog
   \<and> sampleCatalog \<noteq> JNull
   \<and> load (js ''vk_products'') (JArr []) (save (js ''vk_products'') sampleCatalog noItems)
       = sampleCatalog
   \<and> load (js ''vk_products'') (JArr []) (save (js ''vk_products'') JNull noItems) = JArr []"
  using save_load_roundtrip [of sampleCatalog "js ''vk_products''" "JArr []" noItems]
  by (simp add: sampleCatalog_def js_def isArrayIndex_def isDigit_def)

text \<open>
  The claim as stated fails for the value \<open>null\<close>, which is JSON-representable: it is
  saved as the text \<open>null\<close>, parsed back as \<open>null\<close>, and replaced by the fallback, here
  the empty array.
\<close>

theorem save_load_null_counterexample:
  "getItem (js ''vk_cart'') (save (js ''vk_cart'') JNull noItems) = Some (js ''null'')
   \<and> load (js ''vk_cart'') (JArr []) (save (js ''vk_cart'') JNull noItems) = JArr []
   \<and> JArr [] \<noteq> JNull"
  by (simp add: load_def loadTry_def save_def setItem_def getItem_def parseArg_def parse_null_text)

text \<open>
  Claim C9. \<open>load\<close> returns the fallback when the key is missing, when the stored text
  fails to parse, and when it parses to \<open>null\<close>. A fault thrown inside the \<open>try\<close> block
  is never the result of \<open>load\<close>: whenever the block throws, \<open>load\<close> returns the
  fallback.
\<close>

theorem load_falls_back:
  "(getItem k st = None \<longrightarrow> load k fallback st = fallback)
   \<and> (getItem k st = Some s \<and> JSON_parse s = Inl e \<longrightarrow> load k fallback st = fallback)
   \<and> (getItem k st = Some s \<and> JSON_parse s = Inr JNull \<longrightarrow> load k fallback st = fallback)
   \<and> (loadTry k fallback st = Inl e \<longrightarrow> load k fallback st = fallback)"
  by (simp add: load_def loadTry_def parseArg_def parse_null_text)

text \<open>
  A first visit, with nothing stored; a stored text cut short; and a stored \<open>null\<close>.
\<close>

theorem load_falls_back_witness:
  "getItem (js ''vk_cart'') noItems = None
   \<and> load (js ''vk_cart'') (JArr []) noItems = JArr []
   \<and> getItem (js ''vk_cart'') (setItem (js ''vk_cart'') (js ''[1,2'') noItems) = Some (js ''[1,2'')
   \<and> JSON_parse (js ''[1,2'') = Inl SyntaxError
   \<and> load (js ''vk_cart'') (JArr []) (setItem (js ''vk_cart'') (js ''[1,2'') noItems) = JArr []
   \<and> getItem (js ''vk_cart'') (setItem (js ''vk_cart'') (js ''null'') noItems) = Some (js ''null'')
   \<and> JSON_parse (js ''null'') = Inr JNull
   \<and> load (js ''vk_cart'') (JArr []) (setItem (js ''vk_cart'') (js ''null'') noItems) = JArr []"
  using load_falls_back [of "js ''vk_cart''" noItems "JArr []" "js ''[1,2''" SyntaxError]
    load_falls_back [of "js ''vk_cart''" "setItem (js ''vk_cart'') (js ''[1,2'') noItems" "JArr []"
      "js ''[1,2''" SyntaxError]
    load_falls_back [of "js ''vk_cart''" "setItem (js ''vk_cart'') (js ''null'') noItems" "JArr []"
      "js ''null''" SyntaxError]
  by (simp add: getItem_def setItem_def noItems_def parse_null_text parse_corrupt_text)

end
